theory Spec2Isabelle
  imports Main "HOL-Library.Sublist" "HOL-Library.AList"
begin

section \<open>Strings of the host language\<close>

text \<open>
  A text is a list of code units; the model covers the code units below 256, one
  \<^typ>\<open>char\<close> each. On that range the white space removed by \<open>trim\<close> is TAB, LF, VT, FF,
  CR, SPACE and NBSP, and \<open>toLowerCase\<close> moves \<open>A..Z\<close> and the Latin-1 capitals
  (192 to 222 without the multiplication sign 215) up by 32.
\<close>

definition isWhiteSpace :: "char \<Rightarrow> bool" where
  "isWhiteSpace c = ((of_char c :: nat) \<in> {9, 10, 11, 12, 13, 32, 160})"

definition trim :: "string \<Rightarrow> string" where
  "trim s = rev (dropWhile isWhiteSpace (rev (dropWhile isWhiteSpace s)))"

definition lowerChar :: "char \<Rightarrow> char" where
  "lowerChar c =
     (let n = (of_char c :: nat)
      in if (65 \<le> n \<and> n \<le> 90) \<or> (192 \<le> n \<and> n \<le> 222 \<and> n \<noteq> 215)
         then char_of (n + 32) else c)"

definition toLowerCase :: "string \<Rightarrow> string" where
  "toLowerCase s = map lowerChar s"

definition endsWith :: "string \<Rightarrow> string \<Rightarrow> bool" where
  "endsWith s suf =
     (length suf \<le> length s \<and> drop (length s - length suf) s = suf)"

definition startsWith :: "string \<Rightarrow> string \<Rightarrow> bool" where
  "startsWith s pre = (take (length pre) s = pre)"

definition includes_str :: "string \<Rightarrow> char \<Rightarrow> bool" where
  "includes_str s c = (c \<in> set s)"

text \<open>\<open>lastIndexOf\<close> for a one-character needle: the index of its last occurrence, or -1.\<close>

definition lastIndexOf :: "string \<Rightarrow> char \<Rightarrow> int" where
  "lastIndexOf s c =
     (if c \<in> set s
      then int (length s) - 1 - int (length (takeWhile (\<lambda>x. x \<noteq> c) (rev s)))
      else - 1)"

text \<open>\<open>s.substring(0, n)\<close>; a negative bound counts as 0.\<close>

definition substring0 :: "string \<Rightarrow> int \<Rightarrow> string" where
  "substring0 s n = take (nat n) s"

text \<open>\<open>p.endsWith('.md') ? p : p + '.md'\<close>, the normalisation used by every operation.\<close>

definition withMd :: "string \<Rightarrow> string" where
  "withMd p = (if endsWith p ''.md'' then p else p @ ''.md'')"

section \<open>The path library\<close>

text \<open>
  \<open>basename\<close> of the runtime's POSIX path library, which is not part of the
  repository: trailing slashes are ignored and the last segment is returned. With a
  suffix argument, the suffix is taken off the segment when the segment ends with it and
  is longer than it; a path equal to the suffix gives the empty string, a suffix longer
  than the path is ignored. The graph service passes a suffix only with the path of an
  enumerated note, which has no trailing slash.
\<close>

definition basename :: "string \<Rightarrow> string" where
  "basename p =
     rev (takeWhile (\<lambda>c. c \<noteq> CHR ''/'')
            (dropWhile (\<lambda>c. c = CHR ''/'') (rev p)))"

definition basename_ext :: "string \<Rightarrow> string \<Rightarrow> string" where
  "basename_ext p ext =
     (if ext \<noteq> [] \<and> length ext \<le> length p
      then (if ext = p then []
            else let b = basename p
                 in if endsWith b ext \<and> b \<noteq> ext
                    then take (length b - length ext) b else b)
      else basename p)"

section \<open>Sets and maps with insertion order\<close>

text \<open>
  A \<open>Set\<close> of strings iterates in insertion order and ignores a second insertion: a
  duplicate-free list. A \<open>Map\<close> is an association list in which \<open>set\<close> on a present key
  replaces the value in place.
\<close>

definition Set_has :: "'a list \<Rightarrow> 'a \<Rightarrow> bool" where
  "Set_has S x = (x \<in> set S)"

definition Set_add :: "'a list \<Rightarrow> 'a \<Rightarrow> 'a list" where
  "Set_add S x = (if x \<in> set S then S else S @ [x])"

definition new_Set :: "'a list \<Rightarrow> 'a list" where
  "new_Set xs = foldl Set_add [] xs"

definition Map_get :: "('k \<times> 'v) list \<Rightarrow> 'k \<Rightarrow> 'v option" where
  "Map_get m k = map_of m k"

definition Map_set :: "('k \<times> 'v) list \<Rightarrow> 'k \<Rightarrow> 'v \<Rightarrow> ('k \<times> 'v) list" where
  "Map_set m k v = AList.update k v m"

definition Map_values :: "('k \<times> 'v) list \<Rightarrow> 'v list" where
  "Map_values m = map snd m"

section \<open>Target resolution\<close>

text \<open>The loop of \<open>resolveLink\<close> over the known set, in its iteration order.\<close>

fun resolveLoop :: "string \<Rightarrow> string \<Rightarrow> string list \<Rightarrow> string option" where
  "resolveLoop normalizedTarget lowerTarget [] = None"
| "resolveLoop normalizedTarget lowerTarget (note # rest) =
     (if toLowerCase note = lowerTarget then Some note
      else if toLowerCase (basename note) = toLowerCase (basename normalizedTarget)
           then Some note
      else resolveLoop normalizedTarget lowerTarget rest)"

definition resolveLink :: "string \<Rightarrow> string list \<Rightarrow> string \<Rightarrow> string option" where
  "resolveLink target allNotes sourceDir =
     (let normalizedTarget = withMd target
      in if Set_has allNotes normalizedTarget then Some normalizedTarget
         else if sourceDir \<noteq> [] \<and> Set_has allNotes (sourceDir @ ''/'' @ normalizedTarget)
              then Some (sourceDir @ ''/'' @ normalizedTarget)
         else resolveLoop normalizedTarget (toLowerCase normalizedTarget) allNotes)"

section \<open>Link extraction\<close>

record ExtractedLink =
  link_target :: string
  link_alias :: "string option"

definition stripPrefix :: "string \<Rightarrow> string \<Rightarrow> string option" where
  "stripPrefix pre s =
     (if take (length pre) s = pre then Some (drop (length pre) s) else None)"

text \<open>
  One attempt of \<open>WIKILINK_PATTERN\<close>,
  \<^verbatim>\<open>\[\[([^\]|#]+)(?:#[^\]|]*)?(?:\|([^\]]*))?\]\]\<close>, at the start of \<open>s\<close>: the two
  groups and the text after the match. Each greedy class stops at a character that
  only the next piece of the pattern can take, so the longest run is the only run
  that can lead to a match.
\<close>

definition wikilinkAt :: "string \<Rightarrow> (string \<times> string option \<times> string) option" where
  "wikilinkAt s =
     (case stripPrefix ''[['' s of
        None \<Rightarrow> None
      | Some s1 \<Rightarrow>
          (let inTarget = (\<lambda>c. c \<noteq> CHR '']'' \<and> c \<noteq> CHR ''|'' \<and> c \<noteq> CHR ''#'');
               g1 = takeWhile inTarget s1;
               s2 = dropWhile inTarget s1
           in if g1 = [] then None
              else
                (let s3 = (case stripPrefix ''#'' s2 of
                             None \<Rightarrow> s2
                           | Some r \<Rightarrow> dropWhile (\<lambda>c. c \<noteq> CHR '']'' \<and> c \<noteq> CHR ''|'') r);
                     g2 = (case stripPrefix ''|'' s3 of
                             None \<Rightarrow> None
                           | Some r \<Rightarrow> Some (takeWhile (\<lambda>c. c \<noteq> CHR '']'') r));
                     s4 = (case stripPrefix ''|'' s3 of
                             None \<Rightarrow> s3
                           | Some r \<Rightarrow> dropWhile (\<lambda>c. c \<noteq> CHR '']'') r)
                 in case stripPrefix '']]'' s4 of
                      None \<Rightarrow> None
                    | Some rest \<Rightarrow> Some (g1, g2, rest))))"

text \<open>
  The second group of \<open>MARKDOWN_LINK_PATTERN\<close>, \<^verbatim>\<open>([^)]+\.md)(?:#[^)]*)?\<close>, on the run
  \<open>R\<close> of characters before the closing parenthesis: the greedy \<^verbatim>\<open>[^)]+\<close> gives back one
  character at a time, from \<open>n\<close> characters down to one, until \<^verbatim>\<open>.md\<close> follows and what
  is left of the run is empty or a fragment starting with \<^verbatim>\<open>#\<close>.
\<close>

fun mdTarget :: "string \<Rightarrow> nat \<Rightarrow> string option" where
  "mdTarget R 0 = None"
| "mdTarget R (Suc n) =
     (case stripPrefix ''.md'' (drop (Suc n) R) of
        None \<Rightarrow> mdTarget R n
      | Some F \<Rightarrow>
          if F = [] \<or> take 1 F = ''#'' then Some (take (Suc n) R @ ''.md'')
          else mdTarget R n)"

text \<open>
  One attempt of \<open>MARKDOWN_LINK_PATTERN\<close>,
  \<^verbatim>\<open>\[([^\]]*)\]\(([^)]+\.md)(?:#[^)]*)?\)\<close>, at the start of \<open>s\<close>.
\<close>

definition markdownLinkAt :: "string \<Rightarrow> (string \<times> string \<times> string) option" where
  "markdownLinkAt s =
     (case stripPrefix ''['' s of
        None \<Rightarrow> None
      | Some s1 \<Rightarrow>
          (let g1 = takeWhile (\<lambda>c. c \<noteq> CHR '']'') s1;
               s2 = dropWhile (\<lambda>c. c \<noteq> CHR '']'') s1
           in case stripPrefix ''](''  s2 of
                None \<Rightarrow> None
              | Some s3 \<Rightarrow>
                  (let R = takeWhile (\<lambda>c. c \<noteq> CHR '')'') s3;
                       s4 = dropWhile (\<lambda>c. c \<noteq> CHR '')'') s3
                   in case stripPrefix '')'' s4 of
                        None \<Rightarrow> None
                      | Some rest \<Rightarrow>
                          (case mdTarget R (length R) of
                             None \<Rightarrow> None
                           | Some g2 \<Rightarrow> Some (g1, g2, rest)))))"

text \<open>
  A pattern with the global flag is applied again and again by \<open>exec\<close>: the search
  starts where the last match ended and moves one character to the right when the
  pattern does not match. A match is never empty, so the remaining text gets shorter.
\<close>

lemma stripPrefix_length:
  assumes "stripPrefix pre s = Some r"
  shows "length s = length pre + length r"
proof -
  from assms have t: "take (length pre) s = pre" and r: "r = drop (length pre) s"
    by (auto simp: stripPrefix_def split: if_splits)
  from t have "length (take (length pre) s) = length pre" by simp
  then have "length pre \<le> length s" by simp
  with r show ?thesis by simp
qed

lemma wikilinkAt_shorter:
  assumes "wikilinkAt s = Some (g1, g2, rest)"
  shows "length rest < length s"
proof -
  define inT where "inT = (\<lambda>c. c \<noteq> CHR '']'' \<and> c \<noteq> CHR ''|'' \<and> c \<noteq> CHR ''#'')"
  from assms obtain s1 where s1: "stripPrefix ''[['' s = Some s1"
    by (auto simp: wikilinkAt_def split: option.splits)
  define s2 where "s2 = dropWhile inT s1"
  define s3 where "s3 = (case stripPrefix ''#'' s2 of None \<Rightarrow> s2
             | Some r \<Rightarrow> dropWhile (\<lambda>c. c \<noteq> CHR '']'' \<and> c \<noteq> CHR ''|'') r)"
  define s4 where "s4 = (case stripPrefix ''|'' s3 of None \<Rightarrow> s3
             | Some r \<Rightarrow> dropWhile (\<lambda>c. c \<noteq> CHR '']'') r)"
  from assms s1 have r: "stripPrefix '']]'' s4 = Some rest"
    by (auto simp: wikilinkAt_def Let_def s4_def s3_def s2_def inT_def
             split: option.splits if_splits)
  have "length s2 \<le> length s1" by (simp add: s2_def length_dropWhile_le)
  moreover have "length s3 \<le> length s2"
    using stripPrefix_length[of "''#''" s2]
    by (auto simp: s3_def split: option.splits intro: order_trans[OF length_dropWhile_le])
  moreover have "length s4 \<le> length s3"
    using stripPrefix_length[of "''|''" s3]
    by (auto simp: s4_def split: option.splits intro: order_trans[OF length_dropWhile_le])
  moreover from stripPrefix_length[OF r] have "length rest < length s4" by simp
  moreover from stripPrefix_length[OF s1] have "length s1 < length s" by simp
  ultimately show ?thesis by linarith
qed

lemma markdownLinkAt_shorter:
  assumes "markdownLinkAt s = Some (g1, g2, rest)"
  shows "length rest < length s"
proof -
  from assms obtain s1 where s1: "stripPrefix ''['' s = Some s1"
    by (auto simp: markdownLinkAt_def split: option.splits)
  define s2 where "s2 = dropWhile (\<lambda>c. c \<noteq> CHR '']'') s1"
  from assms s1 obtain s3 where s3: "stripPrefix ''](''  s2 = Some s3"
    by (auto simp: markdownLinkAt_def Let_def s2_def split: option.splits)
  define s4 where "s4 = dropWhile (\<lambda>c. c \<noteq> CHR '')'') s3"
  from assms s1 s3 have r: "stripPrefix '')'' s4 = Some rest"
    by (auto simp: markdownLinkAt_def Let_def s2_def s4_def split: option.splits)
  have "length s2 \<le> length s1" by (simp add: s2_def length_dropWhile_le)
  moreover have "length s4 \<le> length s3" by (simp add: s4_def length_dropWhile_le)
  moreover from stripPrefix_length[OF r] have "length rest < length s4" by simp
  moreover from stripPrefix_length[OF s3] have "length s3 < length s2" by simp
  moreover from stripPrefix_length[OF s1] have "length s1 < length s" by simp
  ultimately show ?thesis by linarith
qed

function wikilinkMatches :: "string \<Rightarrow> (string \<times> string option) list" where
  "wikilinkMatches s =
     (if s = [] then []
      else case wikilinkAt s of
             None \<Rightarrow> wikilinkMatches (tl s)
           | Some (g1, g2, rest) \<Rightarrow> (g1, g2) # wikilinkMatches rest)"
  by pat_completeness auto
termination
  by (relation "measure length") (auto dest: wikilinkAt_shorter)

function markdownLinkMatches :: "string \<Rightarrow> (string \<times> string) list" where
  "markdownLinkMatches s =
     (if s = [] then []
      else case markdownLinkAt s of
             None \<Rightarrow> markdownLinkMatches (tl s)
           | Some (g1, g2, rest) \<Rightarrow> (g1, g2) # markdownLinkMatches rest)"
  by pat_completeness auto
termination
  by (relation "measure length") (auto dest: markdownLinkAt_shorter)

declare wikilinkMatches.simps [simp del]
declare markdownLinkMatches.simps [simp del]

text \<open>\<open>if (alias) link.alias = alias\<close>: an absent or empty string sets nothing.\<close>

definition truthy :: "string option \<Rightarrow> string option" where
  "truthy a = (case a of None \<Rightarrow> None | Some x \<Rightarrow> if x = [] then None else Some x)"

text \<open>The body of the first loop of \<open>extractLinks\<close>; \<open>continue\<close> adds no link.\<close>

definition wikiLink :: "string \<times> string option \<Rightarrow> ExtractedLink list" where
  "wikiLink m =
     (case m of (matchResult, aliasMatch) \<Rightarrow>
        if matchResult = [] then []
        else
          (let target = trim matchResult;
               alias = map_option trim aliasMatch;
               normalizedTarget = (if endsWith target ''.md'' then target else target @ ''.md'')
           in [\<lparr>link_target = normalizedTarget, link_alias = truthy alias\<rparr>]))"

text \<open>The body of the second loop.\<close>

definition markdownLink :: "string \<times> string \<Rightarrow> ExtractedLink list" where
  "markdownLink m =
     (case m of (aliasMatch, targetMatch) \<Rightarrow>
        if targetMatch = [] then []
        else
          (let alias = trim aliasMatch;
               target0 = trim targetMatch;
               target = (if startsWith target0 ''./'' then drop 2 target0 else target0)
           in [\<lparr>link_target = target, link_alias = truthy (Some alias)\<rparr>]))"

definition extractLinks :: "string \<Rightarrow> ExtractedLink list" where
  "extractLinks content =
     concat (map wikiLink (wikilinkMatches content)) @
     concat (map markdownLink (markdownLinkMatches content))"

section \<open>The vault on disk\<close>

text \<open>
  What \<open>readdir\<close> with file types returns: a name and a kind for each entry; a
  directory is given with its own listing, or with the failure of reading it.
\<close>

datatype dirent = FileEntry string | DirEntry string dir | OtherEntry string
and dir = Listing "dirent list" | ReaddirFails

datatype error = ReaddirError

fun entry_name :: "dirent \<Rightarrow> string" where
  "entry_name (FileEntry n) = n"
| "entry_name (DirEntry n d) = n"
| "entry_name (OtherEntry n) = n"

text \<open>
  A vault: the listing of its root, the path filter's \<open>isAllowed\<close> (the filter is a
  collaborator of the graph service and is taken as given) and \<open>readFile\<close>, from the
  path relative to the vault root to the content, \<open>None\<close> when the read is rejected.
\<close>

record vault =
  vault_root :: dir
  vault_isAllowed :: "string \<Rightarrow> bool"
  vault_readFile :: "string \<Rightarrow> string option"

text \<open>\<open>scanDirectory\<close> appends to the array \<open>notes\<close>, passed along here.\<close>

fun scanDirectory :: "(string \<Rightarrow> bool) \<Rightarrow> dir \<Rightarrow> string \<Rightarrow> string list \<Rightarrow> error + string list"
and scanEntries :: "(string \<Rightarrow> bool) \<Rightarrow> dirent list \<Rightarrow> string \<Rightarrow> string list \<Rightarrow> error + string list"
where
  "scanDirectory isAllowed ReaddirFails relativePath notes = Inl ReaddirError"
| "scanDirectory isAllowed (Listing entries) relativePath notes =
     scanEntries isAllowed entries relativePath notes"
| "scanEntries isAllowed [] relativePath notes = Inr notes"
| "scanEntries isAllowed (entry # entries) relativePath notes =
     (let entryRelativePath =
            (if relativePath \<noteq> [] then relativePath @ ''/'' @ entry_name entry
             else entry_name entry)
      in if \<not> isAllowed entryRelativePath
         then scanEntries isAllowed entries relativePath notes
         else
           (case entry of
              DirEntry n d \<Rightarrow>
                if \<not> isAllowed (entryRelativePath @ ''/test.md'')
                then scanEntries isAllowed entries relativePath notes
                else (case scanDirectory isAllowed d entryRelativePath notes of
                        Inl e \<Rightarrow> Inl e
                      | Inr notes' \<Rightarrow> scanEntries isAllowed entries relativePath notes')
            | FileEntry n \<Rightarrow>
                if endsWith n ''.md'' \<or> endsWith n ''.markdown''
                then scanEntries isAllowed entries relativePath (notes @ [entryRelativePath])
                else scanEntries isAllowed entries relativePath notes
            | OtherEntry n \<Rightarrow> scanEntries isAllowed entries relativePath notes))"

definition getAllNotes :: "vault \<Rightarrow> error + string list" where
  "getAllNotes v = scanDirectory (vault_isAllowed v) (vault_root v) [] []"

section \<open>Building the graph\<close>

record GraphNode =
  node_id :: string
  node_label :: string
  node_links :: nat
  node_outlinks :: nat
  node_backlinks :: nat

record GraphEdge =
  edge_from :: string
  edge_to :: string
  edge_label :: "string option"

record Graph =
  graph_nodes :: "GraphNode list"
  graph_edges :: "GraphEdge list"

text \<open>The first loop of \<open>getGraph\<close>: one node for each note, all counters 0.\<close>

definition initNode :: "string \<Rightarrow> GraphNode" where
  "initNode notePath =
     \<lparr>node_id = notePath, node_label = basename_ext notePath ''.md'',
      node_links = 0, node_outlinks = 0, node_backlinks = 0\<rparr>"

definition initNodes :: "string list \<Rightarrow> (string \<times> GraphNode) list" where
  "initNodes notes = foldl (\<lambda>nodeMap notePath. Map_set nodeMap notePath (initNode notePath)) [] notes"

definition sourceDirOf :: "string \<Rightarrow> string" where
  "sourceDirOf notePath =
     (if includes_str notePath CHR ''/''
      then substring0 notePath (lastIndexOf notePath CHR ''/'') else [])"

text \<open>The body of the loop over the links of one note: at most one edge.\<close>

definition linkEdge :: "string \<Rightarrow> string list \<Rightarrow> string \<Rightarrow> ExtractedLink \<Rightarrow> GraphEdge list" where
  "linkEdge notePath noteSet sourceDir link =
     (case resolveLink (link_target link) noteSet sourceDir of
        None \<Rightarrow> []
      | Some resolvedTarget \<Rightarrow>
          if resolvedTarget \<noteq> [] \<and> resolvedTarget \<noteq> notePath
          then [\<lparr>edge_from = notePath, edge_to = resolvedTarget,
                 edge_label = truthy (link_alias link)\<rparr>]
          else [])"

text \<open>One unit of work of \<open>processPromises\<close>; a rejected read is caught.\<close>

definition processNote ::
  "(string \<Rightarrow> string option) \<Rightarrow> string list \<Rightarrow> string \<Rightarrow> string \<times> GraphEdge list" where
  "processNote readFile noteSet notePath =
     (let sourceDir = sourceDirOf notePath
      in case readFile notePath of
           None \<Rightarrow> (notePath, [])
         | Some content \<Rightarrow>
             (notePath,
              concat (map (linkEdge notePath noteSet sourceDir) (extractLinks content))))"

text \<open>The aggregation loop: the edge is appended and the two nodes, when present, count it.\<close>

definition addEdge ::
  "GraphEdge list \<times> (string \<times> GraphNode) list \<Rightarrow> GraphEdge \<Rightarrow>
   GraphEdge list \<times> (string \<times> GraphNode) list" where
  "addEdge st edge =
     (case st of (edges, nodeMap) \<Rightarrow>
        (let nodeMap1 =
               (case Map_get nodeMap (edge_from edge) of
                  None \<Rightarrow> nodeMap
                | Some sourceNode \<Rightarrow>
                    Map_set nodeMap (edge_from edge)
                      (sourceNode\<lparr>node_outlinks := node_outlinks sourceNode + 1,
                                  node_links := node_links sourceNode + 1\<rparr>));
             nodeMap2 =
               (case Map_get nodeMap1 (edge_to edge) of
                  None \<Rightarrow> nodeMap1
                | Some targetNode \<Rightarrow>
                    Map_set nodeMap1 (edge_to edge)
                      (targetNode\<lparr>node_backlinks := node_backlinks targetNode + 1,
                                  node_links := node_links targetNode + 1\<rparr>))
         in (edges @ [edge], nodeMap2)))"

definition aggregate ::
  "(string \<times> GraphEdge list) list \<Rightarrow> GraphEdge list \<times> (string \<times> GraphNode) list \<Rightarrow>
   GraphEdge list \<times> (string \<times> GraphNode) list" where
  "aggregate results st = foldl (\<lambda>st result. foldl addEdge st (snd result)) st results"

text \<open>\<open>getGraph\<close> after the enumeration: from the notes found and the reads.\<close>

definition graphOfNotes :: "string list \<Rightarrow> (string \<Rightarrow> string option) \<Rightarrow> Graph" where
  "graphOfNotes notes readFile =
     (let noteSet = new_Set notes;
          nodeMap = initNodes notes;
          results = map (processNote readFile noteSet) notes
      in case aggregate results ([], nodeMap) of
           (edges, nodeMap') \<Rightarrow>
             \<lparr>graph_nodes = Map_values nodeMap', graph_edges = edges\<rparr>)"

definition getGraph :: "vault \<Rightarrow> error + Graph" where
  "getGraph v =
     (case getAllNotes v of
        Inl e \<Rightarrow> Inl e
      | Inr notes \<Rightarrow> Inr (graphOfNotes notes (vault_readFile v)))"

section \<open>Queries\<close>

record GraphStats =
  totalNodes :: nat
  totalEdges :: nat
  orphans :: "string list"
  hubs :: "(string \<times> nat) list"
  unresolvedLinks :: "string list"

text \<open>\<open>xs.slice(0, k)\<close> for an integer \<open>k\<close>; a negative \<open>k\<close> counts from the end.\<close>

definition slice0 :: "'a list \<Rightarrow> int \<Rightarrow> 'a list" where
  "slice0 xs k = (if k < 0 then take (nat (int (length xs) + k)) xs else take (nat k) xs)"

text \<open>\<open>target.replace(/\.md$/, '')\<close>.\<close>

definition stripMd :: "string \<Rightarrow> string" where
  "stripMd t = (if endsWith t ''.md'' then take (length t - 3) t else t)"

text \<open>The body of the loop over the links of one note in \<open>getGraphStats\<close>.\<close>

definition unresolvedStep :: "string list \<Rightarrow> string \<Rightarrow> string list \<Rightarrow> ExtractedLink \<Rightarrow> string list" where
  "unresolvedStep noteSet sourceDir unresolved link =
     (let resolved = resolveLink (link_target link) noteSet sourceDir
      in if resolved = None \<or> resolved = Some []
         then (let linkName = stripMd (link_target link)
               in if linkName \<in> set unresolved then unresolved else unresolved @ [linkName])
         else unresolved)"

definition unresolvedNote ::
  "(string \<Rightarrow> string option) \<Rightarrow> string list \<Rightarrow> string list \<Rightarrow> string \<Rightarrow> string list" where
  "unresolvedNote readFile noteSet unresolved notePath =
     (let sourceDir = sourceDirOf notePath
      in case readFile notePath of
           None \<Rightarrow> unresolved
         | Some content \<Rightarrow>
             foldl (unresolvedStep noteSet sourceDir) unresolved (extractLinks content))"

definition getGraphStats :: "vault \<Rightarrow> int \<Rightarrow> error + GraphStats" where
  "getGraphStats v hubCount =
     (case getGraph v of
        Inl e \<Rightarrow> Inl e
      | Inr graph \<Rightarrow>
          (let noteSet = new_Set (map node_id (graph_nodes graph));
               orphans = map node_id (filter (\<lambda>node. node_links node = 0) (graph_nodes graph));
               hubs = map (\<lambda>node. (node_id node, node_links node))
                        (slice0 (sort_key (\<lambda>node. - int (node_links node)) (graph_nodes graph))
                           hubCount)
           in case getAllNotes v of
                Inl e \<Rightarrow> Inl e
              | Inr notes \<Rightarrow>
                  Inr \<lparr>totalNodes = length (graph_nodes graph),
                       totalEdges = length (graph_edges graph),
                       orphans = orphans,
                       hubs = hubs,
                       unresolvedLinks =
                         foldl (unresolvedNote (vault_readFile v) noteSet) [] notes\<rparr>))"

record Backlink =
  backlink_from :: string
  backlink_context :: "string option"

record BacklinksResult =
  backlinks_path :: string
  backlinks :: "Backlink list"

definition getBacklinks :: "vault \<Rightarrow> string \<Rightarrow> error + BacklinksResult" where
  "getBacklinks v path =
     (case getGraph v of
        Inl e \<Rightarrow> Inl e
      | Inr graph \<Rightarrow>
          (let normalizedPath = (if endsWith path ''.md'' then path else path @ ''.md'')
           in Inr \<lparr>backlinks_path = normalizedPath,
                   backlinks =
                     map (\<lambda>edge. \<lparr>backlink_from = edge_from edge,
                                    backlink_context = truthy (edge_label edge)\<rparr>)
                       (filter (\<lambda>edge. edge_to edge = normalizedPath \<or>
                                         endsWith (edge_to edge) (''/'' @ normalizedPath))
                          (graph_edges graph))\<rparr>))"

record Outlink =
  outlink_to :: string
  outlink_resolved :: bool
  outlink_alias :: "string option"

record OutlinksResult =
  outlinks_path :: string
  outlinks :: "Outlink list"

definition getOutlinks :: "vault \<Rightarrow> string \<Rightarrow> error + OutlinksResult" where
  "getOutlinks v path =
     (case getAllNotes v of
        Inl e \<Rightarrow> Inl e
      | Inr notes \<Rightarrow>
          (let noteSet = new_Set notes;
               normalizedPath = (if endsWith path ''.md'' then path else path @ ''.md'');
               actualPath =
                 (if Set_has noteSet normalizedPath then normalizedPath
                  else case find (\<lambda>note. endsWith note normalizedPath \<or>
                                           toLowerCase note = toLowerCase normalizedPath) notes of
                         None \<Rightarrow> normalizedPath
                       | Some note \<Rightarrow> note);
               sourceDir = sourceDirOf actualPath
           in case vault_readFile v actualPath of
                None \<Rightarrow> Inr \<lparr>outlinks_path = actualPath, outlinks = []\<rparr>
              | Some content \<Rightarrow>
                  Inr \<lparr>outlinks_path = actualPath,
                       outlinks =
                         map (\<lambda>link.
                                let resolved = resolveLink (link_target link) noteSet sourceDir
                                in \<lparr>outlink_to =
                                       (case resolved of
                                          None \<Rightarrow> link_target link
                                        | Some r \<Rightarrow> if r = [] then link_target link else r),
                                     outlink_resolved = (resolved \<noteq> None),
                                     outlink_alias = truthy (link_alias link)\<rparr>)
                           (extractLinks content)\<rparr>))"

section \<open>The local subgraph\<close>

text \<open>The body of the loop over the edges while the node \<open>id\<close> is expanded.\<close>

definition visitEdge ::
  "string \<Rightarrow> nat \<Rightarrow> string list \<times> (string \<times> nat) list \<Rightarrow> GraphEdge \<Rightarrow>
   string list \<times> (string \<times> nat) list" where
  "visitEdge ident currentDepth st edge =
     (case st of (included, queue) \<Rightarrow>
        (let st1 = (if edge_from edge = ident \<and> \<not> Set_has included (edge_to edge)
                    then (Set_add included (edge_to edge),
                          queue @ [(edge_to edge, currentDepth + 1)])
                    else (included, queue))
         in case st1 of (included1, queue1) \<Rightarrow>
              if edge_to edge = ident \<and> \<not> Set_has included1 (edge_from edge)
              then (Set_add included1 (edge_from edge),
                    queue1 @ [(edge_from edge, currentDepth + 1)])
              else (included1, queue1)))"

text \<open>
  The search loop ends: an identifier enters the queue only when it is first included,
  and only ends of edges are ever included, so the number of ends not yet included plus
  the length of the queue goes down with every turn of the loop.
\<close>

definition endpoints :: "GraphEdge list \<Rightarrow> string set" where
  "endpoints es = edge_from ` set es \<union> edge_to ` set es"

lemma visitEdge_measure:
  assumes "visitEdge i d (inc, q) e = (inc', q')" "edge_from e \<in> V" "edge_to e \<in> V" "finite V"
  shows "card (V - set inc') + length q' = card (V - set inc) + length q"
    and "set inc \<subseteq> set inc'"
proof -
  have ins: "\<And>S x. x \<in> V \<Longrightarrow> x \<notin> S \<Longrightarrow> Suc (card (V - insert x S)) = card (V - S)"
  proof -
    fix S x assume "x \<in> V" "x \<notin> S"
    then have "V - S = insert x (V - insert x S)" "x \<notin> V - insert x S" by auto
    then show "Suc (card (V - insert x S)) = card (V - S)"
      using assms(4) by (metis card_insert_disjoint finite_Diff)
  qed
  show "card (V - set inc') + length q' = card (V - set inc) + length q"
    using assms(1-3) ins[of "edge_to e" "set inc"] ins[of "edge_from e" "set inc"]
      ins[of "edge_from e" "insert (edge_to e) (set inc)"]
    by (auto simp: visitEdge_def Set_has_def Set_add_def Let_def split: if_splits)
  show "set inc \<subseteq> set inc'"
    using assms(1) by (auto simp: visitEdge_def Set_has_def Set_add_def Let_def split: if_splits)
qed

lemma foldl_visitEdge_measure:
  assumes "foldl (visitEdge i d) (inc, q) es = (inc', q')" "endpoints es \<subseteq> V" "finite V"
  shows "card (V - set inc') + length q' = card (V - set inc) + length q"
  using assms
proof (induction es arbitrary: inc q)
  case Nil then show ?case by simp
next
  case (Cons e es)
  obtain inc1 q1 where s: "visitEdge i d (inc, q) e = (inc1, q1)" by (cases "visitEdge i d (inc, q) e")
  from Cons.prems(2) have V: "edge_from e \<in> V" "edge_to e \<in> V" "endpoints es \<subseteq> V"
    by (auto simp: endpoints_def)
  from Cons.prems(1) s have "foldl (visitEdge i d) (inc1, q1) es = (inc', q')" by simp
  from Cons.IH[OF this V(3) Cons.prems(3)] visitEdge_measure(1)[OF s V(1,2) Cons.prems(3)]
  show ?case by simp
qed

lemma bfs_step_decreases:
  assumes "foldl (visitEdge i d) (inc, q) es = (inc', q')"
  shows "card (endpoints es - set inc') + length q' < Suc (card (endpoints es - set inc) + length q)"
proof -
  have "finite (endpoints es)" by (simp add: endpoints_def)
  from foldl_visitEdge_measure[OF assms subset_refl this] show ?thesis by simp
qed

text \<open>
  The \<open>while\<close> loop over the queue, from the set of included identifiers and the queue
  to the final set: \<open>shift\<close> takes the head, an entry at the depth bound is dropped,
  any other entry is expanded over all edges.
\<close>

function bfs :: "GraphEdge list \<Rightarrow> int \<Rightarrow> string list \<Rightarrow> (string \<times> nat) list \<Rightarrow> string list" where
  "bfs es depth included [] = included"
| "bfs es depth included ((ident, currentDepth) # queue) =
     (if int currentDepth \<ge> depth then bfs es depth included queue
      else case foldl (visitEdge ident currentDepth) (included, queue) es of
             (included', queue') \<Rightarrow> bfs es depth included' queue')"
  by pat_completeness auto
termination
  apply (relation "measure (\<lambda>(es, depth, included, queue). card (endpoints es - set included) + length queue)")
    apply simp
   apply simp
  apply (auto split: prod.splits intro: bfs_step_decreases)
  done

declare bfs.simps [simp del]

record LocalGraphParams =
  params_path :: string
  params_depth :: "int option"

text \<open>The center: the node with the normalized path, or else the first node whose
  identifier ends with it or equals it case-insensitively.\<close>

definition findCenter :: "GraphNode list \<Rightarrow> string \<Rightarrow> GraphNode option" where
  "findCenter nodes normalizedPath =
     (case find (\<lambda>n. node_id n = normalizedPath) nodes of
        Some n \<Rightarrow> Some n
      | None \<Rightarrow>
          find (\<lambda>n. endsWith (node_id n) normalizedPath \<or>
                     toLowerCase (node_id n) = toLowerCase normalizedPath) nodes)"

definition getLocalGraph :: "vault \<Rightarrow> LocalGraphParams \<Rightarrow> error + Graph" where
  "getLocalGraph v params =
     (case getGraph v of
        Inl e \<Rightarrow> Inl e
      | Inr fullGraph \<Rightarrow>
          (let path = params_path params;
               depth = (case params_depth params of None \<Rightarrow> 1 | Some d \<Rightarrow> d);
               normalizedPath = (if endsWith path ''.md'' then path else path @ ''.md'')
           in case findCenter (graph_nodes fullGraph) normalizedPath of
                None \<Rightarrow> Inr \<lparr>graph_nodes = [], graph_edges = []\<rparr>
              | Some centerNode \<Rightarrow>
                  (let includedNodes =
                         bfs (graph_edges fullGraph) depth
                           [node_id centerNode] [(node_id centerNode, 0)]
                   in Inr \<lparr>graph_nodes =
                             filter (\<lambda>n. Set_has includedNodes (node_id n)) (graph_nodes fullGraph),
                           graph_edges =
                             filter (\<lambda>e. Set_has includedNodes (edge_from e) \<and>
                                          Set_has includedNodes (edge_to e))
                               (graph_edges fullGraph)\<rparr>)))"

section \<open>Notions used in the statements\<close>

text \<open>The edges that one note contributes, and all edges in the order of the build.\<close>

definition noteEdges :: "string list \<Rightarrow> (string \<Rightarrow> string option) \<Rightarrow> string \<Rightarrow> GraphEdge list" where
  "noteEdges notes readFile notePath = snd (processNote readFile (new_Set notes) notePath)"

definition allEdges :: "string list \<Rightarrow> (string \<Rightarrow> string option) \<Rightarrow> GraphEdge list" where
  "allEdges notes readFile = concat (map (noteEdges notes readFile) notes)"

text \<open>What the edges \<open>es\<close> add to the counters of the node with key \<open>k\<close>.\<close>

definition tally :: "GraphEdge list \<Rightarrow> string \<Rightarrow> GraphNode \<Rightarrow> GraphNode" where
  "tally es k n =
     n\<lparr>node_links := node_links n + length (filter (\<lambda>e. edge_from e = k) es)
                       + length (filter (\<lambda>e. edge_to e = k) es),
       node_outlinks := node_outlinks n + length (filter (\<lambda>e. edge_from e = k) es),
       node_backlinks := node_backlinks n + length (filter (\<lambda>e. edge_to e = k) es)\<rparr>"

text \<open>Two identifiers are adjacent when some edge joins them, in either direction.\<close>

definition adjacent :: "GraphEdge list \<Rightarrow> string \<Rightarrow> string \<Rightarrow> bool" where
  "adjacent es a b =
     (\<exists>e\<in>set es. (edge_from e = a \<and> edge_to e = b) \<or> (edge_from e = b \<and> edge_to e = a))"

text \<open>\<open>reach es c k x\<close>: a walk of \<open>k\<close> edges, each taken in either direction, leads from
  \<open>c\<close> to \<open>x\<close>. The undirected distance of \<open>x\<close> from \<open>c\<close> is at most \<open>d\<close> when such a
  walk exists for some \<open>k \<le> d\<close>.\<close>

inductive reach :: "GraphEdge list \<Rightarrow> string \<Rightarrow> nat \<Rightarrow> string \<Rightarrow> bool" for es c where
  reach_0: "reach es c 0 c"
| reach_Suc: "reach es c k a \<Longrightarrow> adjacent es a b \<Longrightarrow> reach es c (Suc k) b"

definition near :: "GraphEdge list \<Rightarrow> string \<Rightarrow> nat \<Rightarrow> string set" where
  "near es c d = {x. \<exists>k\<le>d. reach es c k x}"

text \<open>The identifiers adjacent to \<open>v\<close>.\<close>

definition nbrs :: "GraphEdge list \<Rightarrow> string \<Rightarrow> string set" where
  "nbrs es v = {u. adjacent es v u}"

text \<open>
  The invariant of the search loop, for the center \<open>c\<close> and the depth bound \<open>D\<close>: the
  center is included; every queued entry is included and carries its exact distance,
  which is at most \<open>D\<close>; the queued depths are sorted and span at most two adjacent
  levels; every included identifier is within distance \<open>D\<close>; an included identifier
  that is not queued and lies within a distance below \<open>D\<close> has all its neighbours
  included; and everything within the depth at the head of the queue is included.
\<close>

definition bfs_inv ::
  "GraphEdge list \<Rightarrow> string \<Rightarrow> nat \<Rightarrow> string list \<Rightarrow> (string \<times> nat) list \<Rightarrow> bool" where
  "bfs_inv es c D inc q \<longleftrightarrow>
     c \<in> set inc \<and>
     (\<forall>(v, d)\<in>set q. v \<in> set inc \<and> v \<in> near es c d \<and> (\<forall>j<d. v \<notin> near es c j) \<and> d \<le> D) \<and>
     sorted (map snd q) \<and>
     (\<forall>d\<in>snd ` set q. d \<le> Suc (snd (hd q))) \<and>
     set inc \<subseteq> near es c D \<and>
     (\<forall>v\<in>set inc. v \<notin> fst ` set q \<longrightarrow>
        (\<forall>k<D. v \<in> near es c k \<longrightarrow> nbrs es v \<subseteq> set inc)) \<and>
     (q \<noteq> [] \<longrightarrow> near es c (snd (hd q)) \<subseteq> set inc)"

section \<open>Example vaults\<close>

text \<open>
  A vault with a note in a directory whose read fails, a note with the alternate
  extension, a file that is no note, and a note that links to an unknown name, to the
  unreadable note by its bare name, and to itself.
\<close>

definition demoRead :: "string \<Rightarrow> string option" where
  "demoRead p =
     (if p = ''a.md'' then Some ''[[foo]] [[b|see b]] [[a]]''
      else if p = ''foo.markdown'' then Some ''[[a]]''
      else None)"

definition demoVault :: vault where
  "demoVault =
     \<lparr>vault_root =
        Listing [FileEntry ''a.md'', DirEntry ''d'' (Listing [FileEntry ''b.md'']),
                 FileEntry ''foo.markdown'', FileEntry ''notes.txt''],
      vault_isAllowed = (\<lambda>p. True),
      vault_readFile = demoRead\<rparr>"

definition demoGraph :: Graph where
  "demoGraph =
     \<lparr>graph_nodes =
        [\<lparr>node_id = ''a.md'', node_label = ''a'', node_links = 2,
          node_outlinks = 1, node_backlinks = 1\<rparr>,
         \<lparr>node_id = ''d/b.md'', node_label = ''b'', node_links = 1,
          node_outlinks = 0, node_backlinks = 1\<rparr>,
         \<lparr>node_id = ''foo.markdown'', node_label = ''foo.markdown'', node_links = 1,
          node_outlinks = 1, node_backlinks = 0\<rparr>],
      graph_edges =
        [\<lparr>edge_from = ''a.md'', edge_to = ''d/b.md'', edge_label = Some ''see b''\<rparr>,
         \<lparr>edge_from = ''foo.markdown'', edge_to = ''a.md'', edge_label = None\<rparr>]\<rparr>"

text \<open>A vault with two notes of the same file name, both linked from a third.\<close>

definition backlinkRead :: "string \<Rightarrow> string option" where
  "backlinkRead p = (if p = ''a.md'' then Some ''[[x]] [[folder/x|F]]'' else Some [])"

definition backlinkVault :: vault where
  "backlinkVault =
     \<lparr>vault_root =
        Listing [FileEntry ''a.md'', FileEntry ''x.md'',
                 DirEntry ''folder'' (Listing [FileEntry ''x.md''])],
      vault_isAllowed = (\<lambda>p. True),
      vault_readFile = backlinkRead\<rparr>"

definition backlinkGraph :: Graph where
  "backlinkGraph =
     \<lparr>graph_nodes =
        [\<lparr>node_id = ''a.md'', node_label = ''a'', node_links = 2,
          node_outlinks = 2, node_backlinks = 0\<rparr>,
         \<lparr>node_id = ''x.md'', node_label = ''x'', node_links = 1,
          node_outlinks = 0, node_backlinks = 1\<rparr>,
         \<lparr>node_id = ''folder/x.md'', node_label = ''x'', node_links = 1,
          node_outlinks = 0, node_backlinks = 1\<rparr>],
      graph_edges =
        [\<lparr>edge_from = ''a.md'', edge_to = ''x.md'', edge_label = None\<rparr>,
         \<lparr>edge_from = ''a.md'', edge_to = ''folder/x.md'', edge_label = Some ''F''\<rparr>]\<rparr>"

text \<open>A vault whose only note holds a bracket link with a blank target.\<close>

definition blankVault :: vault where
  "blankVault =
     \<lparr>vault_root = Listing [FileEntry ''c.md''],
      vault_isAllowed = (\<lambda>p. True),
      vault_readFile = (\<lambda>p. if p = ''c.md'' then Some ''[[ ]]'' else None)\<rparr>"

text \<open>The chain \<open>A \<rightarrow> B \<rightarrow> C\<close>.\<close>

definition chainRead :: "string \<Rightarrow> string option" where
  "chainRead p =
     (if p = ''A.md'' then Some ''[[B]]''
      else if p = ''B.md'' then Some ''[[C]]''
      else if p = ''C.md'' then Some [] else None)"

definition chainVault :: vault where
  "chainVault =
     \<lparr>vault_root = Listing [FileEntry ''A.md'', FileEntry ''B.md'', FileEntry ''C.md''],
      vault_isAllowed = (\<lambda>p. True),
      vault_readFile = chainRead\<rparr>"

definition chainGraph :: Graph where
  "chainGraph =
     \<lparr>graph_nodes =
        [\<lparr>node_id = ''A.md'', node_label = ''A'', node_links = 1,
          node_outlinks = 1, node_backlinks = 0\<rparr>,
         \<lparr>node_id = ''B.md'', node_label = ''B'', node_links = 2,
          node_outlinks = 1, node_backlinks = 1\<rparr>,
         \<lparr>node_id = ''C.md'', node_label = ''C'', node_links = 1,
          node_outlinks = 0, node_backlinks = 1\<rparr>],
      graph_edges =
        [\<lparr>edge_from = ''A.md'', edge_to = ''B.md'', edge_label = None\<rparr>,
         \<lparr>edge_from = ''B.md'', edge_to = ''C.md'', edge_label = None\<rparr>]\<rparr>"

section \<open>Facts about strings and paths\<close>

lemma endsWith_suffix: "endsWith s suf \<longleftrightarrow> suffix suf s"
proof
  assume "endsWith s suf"
  then have "s = take (length s - length suf) s @ suf"
    by (metis append_take_drop_id endsWith_def)
  then show "suffix suf s" by (metis suffixI)
next
  assume "suffix suf s"
  then obtain u where "s = u @ suf" by (auto simp: suffix_def)
  then show "endsWith s suf" by (simp add: endsWith_def)
qed

lemma withMd_suffix: "suffix ''.md'' (withMd p)"
  by (auto simp: withMd_def endsWith_suffix suffix_def)

lemma lowerChar_slash: "lowerChar c = CHR ''/'' \<longleftrightarrow> c = CHR ''/''"
proof
  assume a: "lowerChar c = CHR ''/''"
  show "c = CHR ''/''"
  proof (rule ccontr)
    assume n: "c \<noteq> CHR ''/''"
    define k where "k = (of_char c :: nat)"
    from a n have r: "(65 \<le> k \<and> k \<le> 90) \<or> (192 \<le> k \<and> k \<le> 222 \<and> k \<noteq> 215)"
      and e: "char_of (k + 32) = CHR ''/''"
      by (auto simp: lowerChar_def Let_def k_def split: if_splits)
    from e have "of_char (char_of (k + 32)) = (of_char CHR ''/'' :: nat)" by simp
    then have "(k + 32) mod 256 = 47" by (simp only: of_char_of) simp
    with r show False by auto
  qed
next
  assume "c = CHR ''/''"
  then show "lowerChar c = CHR ''/''" by (simp add: lowerChar_def)
qed

lemma toLowerCase_basename: "toLowerCase (basename p) = basename (toLowerCase p)"
proof -
  have 1: "(\<lambda>c. c \<noteq> CHR ''/'') \<circ> lowerChar = (\<lambda>c. c \<noteq> CHR ''/'')"
    by (auto simp: fun_eq_iff lowerChar_slash)
  have 2: "(\<lambda>c. c = CHR ''/'') \<circ> lowerChar = (\<lambda>c. c = CHR ''/'')"
    by (auto simp: fun_eq_iff lowerChar_slash)
  show ?thesis
    unfolding toLowerCase_def basename_def
    by (simp add: rev_map takeWhile_map dropWhile_map 1 2)
qed

section \<open>Resolution order\<close>

lemma resolveLoop_find:
  "resolveLoop nt (toLowerCase nt) ns =
     find (\<lambda>m. toLowerCase m = toLowerCase nt \<or>
                toLowerCase (basename m) = toLowerCase (basename nt)) ns"
  by (induction ns) auto

text \<open>
  The full-identifier test of the loop never decides the result: an identifier that
  equals the normalized target case-insensitively in full also has the target's final
  segment case-insensitively, so the loop returns the first identifier that matches by
  file name.
\<close>

lemma resolveLoop_by_filename:
  "resolveLoop nt (toLowerCase nt) ns =
     find (\<lambda>m. toLowerCase (basename m) = toLowerCase (basename nt)) ns"
proof -
  have "toLowerCase m = toLowerCase nt \<Longrightarrow>
        toLowerCase (basename m) = toLowerCase (basename nt)" for m
    by (simp add: toLowerCase_basename)
  then have e: "(\<lambda>m. toLowerCase m = toLowerCase nt \<or>
                  toLowerCase (basename m) = toLowerCase (basename nt)) =
                (\<lambda>m. toLowerCase (basename m) = toLowerCase (basename nt))"
    by (intro ext) blast
  show ?thesis by (subst resolveLoop_find) (simp only: e)
qed

text \<open>
  C1 at the known set \<open>Archive/x.md\<close>, \<open>Notes/x.md\<close> (in this order), with no source
  directory and the target \<open>notes/x\<close>: the identifier \<open>Notes/x.md\<close> equals the normalized
  target case-insensitively in full, and \<open>resolveLink\<close> returns \<open>Archive/x.md\<close>, which
  matches by its file name only and is no full match. For every target and known set
  the loop of \<open>resolveLink\<close> is the search for the first identifier with the target's
  file name, whatever full matches the set holds.
\<close>

theorem resolveLink_filename_before_full:
  "''Notes/x.md'' \<in> set (new_Set [''Archive/x.md'', ''Notes/x.md'']) \<and>
   toLowerCase ''Notes/x.md'' = toLowerCase (withMd ''notes/x'') \<and>
   resolveLink ''notes/x'' (new_Set [''Archive/x.md'', ''Notes/x.md'']) [] = Some ''Archive/x.md'' \<and>
   toLowerCase ''Archive/x.md'' \<noteq> toLowerCase (withMd ''notes/x'') \<and>
   (\<forall>nt known.
      resolveLoop nt (toLowerCase nt) known =
        find (\<lambda>m. toLowerCase (basename m) = toLowerCase (basename nt)) known)"
proof -
  have "''Notes/x.md'' \<in> set (new_Set [''Archive/x.md'', ''Notes/x.md'']) \<and>
   toLowerCase ''Notes/x.md'' = toLowerCase (withMd ''notes/x'') \<and>
   resolveLink ''notes/x'' (new_Set [''Archive/x.md'', ''Notes/x.md'']) [] = Some ''Archive/x.md'' \<and>
   toLowerCase ''Archive/x.md'' \<noteq> toLowerCase (withMd ''notes/x'')"
    by code_simp
  with resolveLoop_by_filename show ?thesis by blast
qed

section \<open>The graph in closed form\<close>

lemma set_Set_add: "set (Set_add S x) = insert x (set S)"
  by (auto simp: Set_add_def)

lemma distinct_Set_add: "distinct S \<Longrightarrow> distinct (Set_add S x)"
  by (auto simp: Set_add_def)

lemma foldl_Set_add: "set (foldl Set_add S xs) = set S \<union> set xs"
  by (induction xs arbitrary: S) (auto simp: set_Set_add)

lemma distinct_foldl_Set_add: "distinct S \<Longrightarrow> distinct (foldl Set_add S xs)"
  by (induction xs arbitrary: S) (auto simp: distinct_Set_add)

lemma set_new_Set: "set (new_Set xs) = set xs"
  by (simp add: new_Set_def foldl_Set_add)

lemma distinct_new_Set: "distinct (new_Set xs)"
  by (simp add: new_Set_def distinct_foldl_Set_add)

lemma foldl_Set_add_id: "set xs \<subseteq> set S \<Longrightarrow> foldl Set_add S xs = S"
  by (induction xs arbitrary: S) (auto simp: Set_add_def)

lemma foldl_Set_add_append:
  "foldl Set_add (S @ T) xs = S @ foldl Set_add T [x \<leftarrow> xs. x \<notin> set S]"
  by (induction xs arbitrary: T) (auto simp: Set_add_def)

lemma foldl_Set_add_distinct:
  "distinct S \<Longrightarrow> foldl Set_add T S = T @ [x \<leftarrow> S. x \<notin> set T]"
proof (induction S arbitrary: T)
  case Nil
  then show ?case by simp
next
  case (Cons a S)
  then show ?case by (auto simp: Set_add_def intro: filter_cong)
qed

lemma new_Set_idem: "new_Set (new_Set xs) = new_Set xs"
  using foldl_Set_add_distinct[OF distinct_new_Set, of "[]" xs]
  by (subst new_Set_def) simp

lemma Map_set_init:
  "Map_set (map (\<lambda>x. (x, f x)) S) k (f k) = map (\<lambda>x. (x, f x)) (Set_add S k)"
  by (induction S) (auto simp: Map_set_def Set_add_def)

lemma foldl_Map_set_init:
  "foldl (\<lambda>nodeMap notePath. Map_set nodeMap notePath (f notePath))
     (map (\<lambda>k. (k, f k)) S) ns =
   map (\<lambda>k. (k, f k)) (foldl Set_add S ns)"
  by (induction ns arbitrary: S) (simp_all add: Map_set_init)

lemma initNodes_closed: "initNodes notes = map (\<lambda>k. (k, initNode k)) (new_Set notes)"
  using foldl_Map_set_init[of initNode "[]" "notes"] by (simp add: initNodes_def new_Set_def)

lemma tally_Nil: "tally [] k n = n"
  by (simp add: tally_def)

lemma tally_Cons: "tally es k (tally [e] k n) = tally (e # es) k n"
  by (simp add: tally_def)

lemma adjust_absent:
  "k \<notin> fst ` set m \<Longrightarrow> map (\<lambda>(k', n). (k', if k' = k then f n else n)) m = m"
  by (induction m) auto

lemma update_adjust_Some:
  assumes "distinct (map fst m)" and "map_of m k = Some n"
  shows "AList.update k (f n) m = map (\<lambda>(k', n). (k', if k' = k then f n else n)) m"
  using assms
proof (induction m)
  case Nil
  then show ?case by simp
next
  case (Cons p m)
  obtain k' n' where p: "p = (k', n')" by (cases p)
  show ?case
  proof (cases "k' = k")
    case True
    with Cons.prems p have "k \<notin> fst ` set m" and "n' = n" by auto
    with True p show ?thesis by (simp add: adjust_absent)
  next
    case False
    with Cons p show ?thesis by simp
  qed
qed

lemma update_adjust:
  assumes "distinct (map fst m)"
  shows "(case map_of m k of None \<Rightarrow> m | Some n \<Rightarrow> AList.update k (f n) m) =
         map (\<lambda>(k', n). (k', if k' = k then f n else n)) m"
proof (cases "map_of m k")
  case None
  then have "k \<notin> fst ` set m" by (simp add: map_of_eq_None_iff)
  with None show ?thesis by (simp add: adjust_absent)
next
  case (Some n)
  with update_adjust_Some[OF assms Some] show ?thesis by simp
qed

lemma addEdge_closed:
  assumes "distinct (map fst m)"
  shows "addEdge (es0, m) e = (es0 @ [e], map (\<lambda>(k, n). (k, tally [e] k n)) m)"
proof -
  let ?fo = "\<lambda>n. n\<lparr>node_outlinks := node_outlinks n + 1, node_links := node_links n + 1\<rparr>"
  let ?fb = "\<lambda>n. n\<lparr>node_backlinks := node_backlinks n + 1, node_links := node_links n + 1\<rparr>"
  let ?m1 = "map (\<lambda>(k', n). (k', if k' = edge_from e then ?fo n else n)) m"
  have d1: "distinct (map fst ?m1)" using assms by (simp add: case_prod_unfold comp_def)
  have "addEdge (es0, m) e =
        (es0 @ [e], map (\<lambda>(k', n). (k', if k' = edge_to e then ?fb n else n)) ?m1)"
    unfolding addEdge_def Map_get_def Map_set_def Let_def prod.case
    by (simp only: update_adjust[OF assms] update_adjust[OF d1])
  also have "map (\<lambda>(k', n). (k', if k' = edge_to e then ?fb n else n)) ?m1 =
             map (\<lambda>(k, n). (k, tally [e] k n)) m"
    by (auto simp: tally_def)
  finally show ?thesis .
qed

lemma foldl_addEdge_closed:
  assumes "distinct (map fst m)"
  shows "foldl addEdge (es0, m) es = (es0 @ es, map (\<lambda>(k, n). (k, tally es k n)) m)"
  using assms
proof (induction es arbitrary: es0 m)
  case Nil
  then show ?case by (simp add: tally_Nil)
next
  case (Cons e es)
  let ?m1 = "map (\<lambda>(k, n). (k, tally [e] k n)) m"
  have d1: "distinct (map fst ?m1)" using Cons.prems by (simp add: case_prod_unfold comp_def)
  have c: "map (\<lambda>(k, n). (k, tally es k n)) ?m1 = map (\<lambda>(k, n). (k, tally (e # es) k n)) m"
    by (induction m) (auto simp: tally_Cons)
  have "foldl addEdge (es0, m) (e # es) = foldl addEdge (es0 @ [e], ?m1) es"
    by (simp only: foldl_Cons addEdge_closed[OF Cons.prems])
  also have "\<dots> = ((es0 @ [e]) @ es, map (\<lambda>(k, n). (k, tally es k n)) ?m1)"
    by (rule Cons.IH[OF d1])
  finally show ?case by (simp only: c) simp
qed

lemma aggregate_concat: "aggregate results st = foldl addEdge st (concat (map snd results))"
  unfolding aggregate_def by (induction results arbitrary: st) simp_all

lemma graphOfNotes_closed:
  "graphOfNotes notes readFile =
     \<lparr>graph_nodes = map (\<lambda>k. tally (allEdges notes readFile) k (initNode k)) (new_Set notes),
      graph_edges = allEdges notes readFile\<rparr>"
proof -
  have d: "distinct (map fst (initNodes notes))"
    by (simp add: initNodes_closed comp_def distinct_new_Set)
  have e: "concat (map snd (map (processNote readFile (new_Set notes)) notes)) =
           allEdges notes readFile"
    by (simp add: allEdges_def noteEdges_def[abs_def] comp_def)
  have "aggregate (map (processNote readFile (new_Set notes)) notes) ([], initNodes notes) =
        (allEdges notes readFile,
         map (\<lambda>(k, n). (k, tally (allEdges notes readFile) k n)) (initNodes notes))"
    by (simp only: aggregate_concat e foldl_addEdge_closed[OF d] append_Nil)
  then show ?thesis
    by (simp add: graphOfNotes_def Let_def Map_values_def initNodes_closed comp_def)
qed

lemma getAllNotes_demo: "getAllNotes demoVault = Inr [''a.md'', ''d/b.md'', ''foo.markdown'']"
  by code_simp

lemma getGraph_demo: "getGraph demoVault = Inr demoGraph"
  by code_simp

section \<open>Edges of a built graph\<close>

lemma resolveLoop_in: "resolveLoop nt lt ns = Some r \<Longrightarrow> r \<in> set ns"
  by (induction ns) (auto split: if_splits)

lemma resolveLink_in: "resolveLink t ns sd = Some r \<Longrightarrow> r \<in> set ns"
  by (auto simp: resolveLink_def Let_def Set_has_def split: if_splits dest: resolveLoop_in)

lemma linkEdge_edge:
  assumes "e \<in> set (linkEdge p NS sd l)"
  shows "edge_from e = p \<and> edge_to e \<in> set NS \<and> edge_to e \<noteq> p \<and>
         resolveLink (link_target l) NS sd = Some (edge_to e)"
  using assms
  by (auto simp: linkEdge_def split: option.splits if_splits
        dest: resolveLink_in resolveLink_in[OF sym])

lemma noteEdges_edge:
  assumes "e \<in> set (noteEdges ns rd p)"
  shows "edge_from e = p \<and> edge_to e \<in> set ns \<and> edge_to e \<noteq> p \<and>
         (\<exists>t sd. resolveLink t (new_Set ns) sd = Some (edge_to e))"
proof -
  from assms obtain l where "e \<in> set (linkEdge p (new_Set ns) (sourceDirOf p) l)"
    by (auto simp: noteEdges_def processNote_def Let_def split: option.splits)
  from linkEdge_edge[OF this] show ?thesis by (auto simp: set_new_Set)
qed

lemma noteEdges_unreadable: "rd p = None \<Longrightarrow> noteEdges ns rd p = []"
  by (simp add: noteEdges_def processNote_def)

lemma allEdges_edge:
  assumes "e \<in> set (allEdges ns rd)"
  shows "edge_from e \<in> set ns \<and> edge_to e \<in> set ns \<and> edge_to e \<noteq> edge_from e \<and>
         rd (edge_from e) \<noteq> None \<and>
         (\<exists>t sd. resolveLink t (new_Set ns) sd = Some (edge_to e))"
proof -
  from assms obtain p where p: "p \<in> set ns" "e \<in> set (noteEdges ns rd p)"
    by (auto simp: allEdges_def)
  from p(2) have "rd p \<noteq> None" by (cases "rd p") (auto simp: noteEdges_unreadable)
  with noteEdges_edge[OF p(2)] p(1) show ?thesis by auto
qed

lemma getGraph_Inr:
  "getGraph v = Inr g \<longleftrightarrow>
     (\<exists>ns. getAllNotes v = Inr ns \<and> g = graphOfNotes ns (vault_readFile v))"
  by (auto simp: getGraph_def split: sum.splits)

lemma node_ids_closed:
  "map node_id (graph_nodes (graphOfNotes ns rd)) = new_Set ns"
  by (simp add: graphOfNotes_closed comp_def tally_def initNode_def)

section \<open>Counters\<close>

lemma sum_indicator:
  "distinct S \<Longrightarrow> a \<in> set S \<Longrightarrow> sum_list (map (\<lambda>k. if a = k then 1 else 0) S) = (1::nat)"
proof (induction S)
  case Nil
  then show ?case by simp
next
  case (Cons x S)
  have "a \<notin> set S \<Longrightarrow> sum_list (map (\<lambda>k. if a = k then 1 else 0) S) = (0::nat)"
    by (induction S) auto
  with Cons show ?case by auto
qed

lemma sum_counts:
  assumes "distinct S" and "\<forall>e\<in>set es. f e \<in> set S"
  shows "sum_list (map (\<lambda>k. length (filter (\<lambda>e. f e = k) es)) S) = length es"
  using assms(2)
proof (induction es)
  case Nil
  then show ?case by simp
next
  case (Cons e es)
  have "sum_list (map (\<lambda>k. length (filter (\<lambda>e. f e = k) (e # es))) S) =
        sum_list (map (\<lambda>k. (if f e = k then 1 else 0) + length (filter (\<lambda>e. f e = k) es)) S)"
    by (rule arg_cong[where f = sum_list], rule map_cong) auto
  also have "\<dots> = sum_list (map (\<lambda>k. if f e = k then 1 else 0) S) +
                  sum_list (map (\<lambda>k. length (filter (\<lambda>e. f e = k) es)) S)"
    by (simp add: sum_list_addf)
  also have "\<dots> = 1 + length es"
    using Cons sum_indicator[OF assms(1), of "f e"] by simp
  finally show ?case by simp
qed

text \<open>
  C2: in every graph the builder returns, each node has \<open>links = outlinks + backlinks\<close>,
  its \<open>outlinks\<close> is the number of edges of the graph that start at it and its
  \<open>backlinks\<close> the number that end at it, and the number of edges is the sum of the
  \<open>outlinks\<close> of all nodes and also the sum of their \<open>backlinks\<close>.
\<close>

theorem getGraph_counters:
  assumes "getGraph v = Inr g"
  shows "(\<forall>n\<in>set (graph_nodes g).
            node_links n = node_outlinks n + node_backlinks n \<and>
            node_outlinks n = length (filter (\<lambda>e. edge_from e = node_id n) (graph_edges g)) \<and>
            node_backlinks n = length (filter (\<lambda>e. edge_to e = node_id n) (graph_edges g))) \<and>
         length (graph_edges g) = sum_list (map node_outlinks (graph_nodes g)) \<and>
         length (graph_edges g) = sum_list (map node_backlinks (graph_nodes g))"
proof -
  from assms obtain ns where g: "g = graphOfNotes ns (vault_readFile v)"
    by (auto simp: getGraph_Inr)
  let ?es = "allEdges ns (vault_readFile v)"
  have nodes: "graph_nodes g = map (\<lambda>k. tally ?es k (initNode k)) (new_Set ns)"
    and edges: "graph_edges g = ?es"
    by (simp_all add: g graphOfNotes_closed)
  have per_node: "\<forall>n\<in>set (graph_nodes g).
            node_links n = node_outlinks n + node_backlinks n \<and>
            node_outlinks n = length (filter (\<lambda>e. edge_from e = node_id n) (graph_edges g)) \<and>
            node_backlinks n = length (filter (\<lambda>e. edge_to e = node_id n) (graph_edges g))"
    by (auto simp: nodes edges tally_def initNode_def)
  have "sum_list (map node_outlinks (graph_nodes g)) =
        sum_list (map (\<lambda>k. length (filter (\<lambda>e. edge_from e = k) ?es)) (new_Set ns))"
    by (simp add: nodes comp_def tally_def initNode_def)
  also have "\<dots> = length ?es"
    by (rule sum_counts[OF distinct_new_Set]) (auto simp: set_new_Set dest: allEdges_edge)
  finally have sum_out: "length (graph_edges g) = sum_list (map node_outlinks (graph_nodes g))"
    by (simp add: edges)
  have "sum_list (map node_backlinks (graph_nodes g)) =
        sum_list (map (\<lambda>k. length (filter (\<lambda>e. edge_to e = k) ?es)) (new_Set ns))"
    by (simp add: nodes comp_def tally_def initNode_def)
  also have "\<dots> = length ?es"
    by (rule sum_counts[OF distinct_new_Set]) (auto simp: set_new_Set dest: allEdges_edge)
  finally have sum_in: "length (graph_edges g) = sum_list (map node_backlinks (graph_nodes g))"
    by (simp add: edges)
  from per_node sum_out sum_in show ?thesis by blast
qed

theorem getGraph_counters_witness:
  "getGraph demoVault = Inr demoGraph \<and>
   (let n = \<lparr>node_id = ''a.md'', node_label = ''a'', node_links = 2,
             node_outlinks = 1, node_backlinks = 1\<rparr>
    in n \<in> set (graph_nodes demoGraph) \<and>
       node_links n = node_outlinks n + node_backlinks n \<and>
       node_outlinks n = length (filter (\<lambda>e. edge_from e = node_id n) (graph_edges demoGraph)) \<and>
       node_backlinks n = length (filter (\<lambda>e. edge_to e = node_id n) (graph_edges demoGraph))) \<and>
   length (graph_edges demoGraph) = sum_list (map node_outlinks (graph_nodes demoGraph)) \<and>
   length (graph_edges demoGraph) = sum_list (map node_backlinks (graph_nodes demoGraph))"
proof -
  let ?n = "\<lparr>node_id = ''a.md'', node_label = ''a'', node_links = 2,
             node_outlinks = 1, node_backlinks = 1\<rparr>"
  have m: "?n \<in> set (graph_nodes demoGraph)" by (simp add: demoGraph_def)
  note c = getGraph_counters[OF getGraph_demo]
  from c m have "node_links ?n = node_outlinks ?n + node_backlinks ?n \<and>
       node_outlinks ?n = length (filter (\<lambda>e. edge_from e = node_id ?n) (graph_edges demoGraph)) \<and>
       node_backlinks ?n = length (filter (\<lambda>e. edge_to e = node_id ?n) (graph_edges demoGraph))"
    by blast
  with c m getGraph_demo show ?thesis unfolding Let_def by blast
qed

text \<open>
  C3: in every graph the builder returns, the two ends of every edge are identifiers of
  nodes of the graph, and no edge leads from a node to itself; a link whose target does
  not resolve, or resolves to the identifier of the note that holds it, yields no edge.
\<close>

theorem getGraph_edges_closed:
  assumes "getGraph v = Inr g"
  shows "(\<forall>e\<in>set (graph_edges g).
            edge_from e \<in> node_id ` set (graph_nodes g) \<and>
            edge_to e \<in> node_id ` set (graph_nodes g) \<and>
            edge_from e \<noteq> edge_to e) \<and>
         (\<forall>notePath known sourceDir link.
            resolveLink (link_target link) known sourceDir = None \<or>
            resolveLink (link_target link) known sourceDir = Some notePath \<longrightarrow>
            linkEdge notePath known sourceDir link = [])"
proof -
  from assms obtain ns where g: "g = graphOfNotes ns (vault_readFile v)"
    by (auto simp: getGraph_Inr)
  have ids: "node_id ` set (graph_nodes g) = set ns"
    using node_ids_closed[of ns "vault_readFile v"] set_new_Set[of ns]
    by (metis g set_map)
  have "graph_edges g = allEdges ns (vault_readFile v)" by (simp add: g graphOfNotes_closed)
  with ids have "\<forall>e\<in>set (graph_edges g).
            edge_from e \<in> node_id ` set (graph_nodes g) \<and>
            edge_to e \<in> node_id ` set (graph_nodes g) \<and>
            edge_from e \<noteq> edge_to e"
    by (auto dest: allEdges_edge)
  moreover have "\<forall>notePath known sourceDir link.
            resolveLink (link_target link) known sourceDir = None \<or>
            resolveLink (link_target link) known sourceDir = Some notePath \<longrightarrow>
            linkEdge notePath known sourceDir link = []"
    by (auto simp: linkEdge_def)
  ultimately show ?thesis by blast
qed

theorem getGraph_edges_closed_witness:
  "getGraph demoVault = Inr demoGraph \<and>
   (let e = \<lparr>edge_from = ''a.md'', edge_to = ''d/b.md'', edge_label = Some ''see b''\<rparr>
    in e \<in> set (graph_edges demoGraph) \<and>
       edge_from e \<in> node_id ` set (graph_nodes demoGraph) \<and>
       edge_to e \<in> node_id ` set (graph_nodes demoGraph) \<and>
       edge_from e \<noteq> edge_to e) \<and>
   resolveLink ''a.md'' [''a.md'', ''d/b.md'', ''foo.markdown''] [] = Some ''a.md'' \<and>
   linkEdge ''a.md'' [''a.md'', ''d/b.md'', ''foo.markdown''] []
     \<lparr>link_target = ''a.md'', link_alias = None\<rparr> = [] \<and>
   resolveLink ''foo.md'' [''a.md'', ''d/b.md'', ''foo.markdown''] [] = None \<and>
   linkEdge ''a.md'' [''a.md'', ''d/b.md'', ''foo.markdown''] []
     \<lparr>link_target = ''foo.md'', link_alias = None\<rparr> = []"
proof -
  let ?e = "\<lparr>edge_from = ''a.md'', edge_to = ''d/b.md'', edge_label = Some ''see b''\<rparr>"
  let ?known = "[''a.md'', ''d/b.md'', ''foo.markdown'']"
  let ?self = "\<lparr>link_target = ''a.md'', link_alias = None\<rparr>"
  let ?ghost = "\<lparr>link_target = ''foo.md'', link_alias = None\<rparr>"
  have m: "?e \<in> set (graph_edges demoGraph)" by (simp add: demoGraph_def)
  have r1: "resolveLink (link_target ?self) ?known [] = Some ''a.md''" by code_simp
  have r2: "resolveLink (link_target ?ghost) ?known [] = None" by code_simp
  note t = getGraph_edges_closed[OF getGraph_demo]
  from conjunct1[OF t] m
  have 1: "edge_from ?e \<in> node_id ` set (graph_nodes demoGraph) \<and>
        edge_to ?e \<in> node_id ` set (graph_nodes demoGraph) \<and>
        edge_from ?e \<noteq> edge_to ?e"
    by blast
  from conjunct2[OF t, rule_format, of ?self ?known "[]" "''a.md''"] r1
  have 2: "linkEdge ''a.md'' ?known [] ?self = []" by simp
  from conjunct2[OF t, rule_format, of ?ghost ?known "[]" "''a.md''"] r2
  have 3: "linkEdge ''a.md'' ?known [] ?ghost = []" by simp
  from r1 r2 have "resolveLink ''a.md'' ?known [] = Some ''a.md''"
    and "resolveLink ''foo.md'' ?known [] = None" by simp_all
  with m getGraph_demo 1 2 3 show ?thesis unfolding Let_def by blast
qed

section \<open>Failed reads\<close>

lemma getOutlinks_total:
  assumes "getAllNotes v = Inr ns"
  shows "\<exists>r. getOutlinks v path = Inr r \<and>
             (vault_readFile v (outlinks_path r) = None \<longrightarrow> outlinks r = [])"
  using assms by (auto simp: getOutlinks_def Let_def split: option.splits)

text \<open>
  C8: when the enumeration of the vault succeeds, the build returns a graph whatever
  the reads do; a document whose read fails yields an empty edge list, so no edge of the
  graph starts at it, its node is still in the graph, with \<open>outlinks = 0\<close> and with the
  \<open>backlinks\<close> the other documents give it. The outlinks operation returns a result for
  every path, and its outlink list is empty when the read of the document it settled on
  fails.
\<close>

theorem read_failure_is_local:
  assumes "getAllNotes v = Inr ns"
  shows "(\<exists>g. getGraph v = Inr g \<and>
            (\<forall>d. vault_readFile v d = None \<longrightarrow>
                 snd (processNote (vault_readFile v) (new_Set ns) d) = [] \<and>
                 (\<forall>e\<in>set (graph_edges g). edge_from e \<noteq> d) \<and>
                 (d \<in> set ns \<longrightarrow>
                    (\<exists>n\<in>set (graph_nodes g). node_id n = d \<and> node_outlinks n = 0 \<and>
                       node_backlinks n =
                         length (filter (\<lambda>e. edge_to e = d) (graph_edges g)))))) \<and>
         (\<forall>path. \<exists>r. getOutlinks v path = Inr r \<and>
                    (vault_readFile v (outlinks_path r) = None \<longrightarrow> outlinks r = []))"
proof -
  let ?rd = "vault_readFile v"
  let ?g = "graphOfNotes ns ?rd"
  let ?es = "allEdges ns ?rd"
  have g: "getGraph v = Inr ?g" using assms by (simp add: getGraph_def)
  have nodes: "graph_nodes ?g = map (\<lambda>k. tally ?es k (initNode k)) (new_Set ns)"
    and edges: "graph_edges ?g = ?es"
    by (simp_all add: graphOfNotes_closed)
  have "snd (processNote ?rd (new_Set ns) d) = [] \<and>
        (\<forall>e\<in>set (graph_edges ?g). edge_from e \<noteq> d) \<and>
        (d \<in> set ns \<longrightarrow>
           (\<exists>n\<in>set (graph_nodes ?g). node_id n = d \<and> node_outlinks n = 0 \<and>
              node_backlinks n = length (filter (\<lambda>e. edge_to e = d) (graph_edges ?g))))"
    if fail: "?rd d = None" for d
  proof (intro conjI impI)
    show "snd (processNote ?rd (new_Set ns) d) = []"
      using fail by (simp add: processNote_def)
    show nofrom: "\<forall>e\<in>set (graph_edges ?g). edge_from e \<noteq> d"
      using fail by (auto simp: edges dest: allEdges_edge)
    assume "d \<in> set ns"
    then have "tally ?es d (initNode d) \<in> set (graph_nodes ?g)"
      by (simp add: nodes set_new_Set)
    moreover have "filter (\<lambda>e. edge_from e = d) ?es = []"
      using nofrom by (auto simp: edges filter_empty_conv)
    ultimately show "\<exists>n\<in>set (graph_nodes ?g). node_id n = d \<and> node_outlinks n = 0 \<and>
              node_backlinks n = length (filter (\<lambda>e. edge_to e = d) (graph_edges ?g))"
      by (intro bexI[of _ "tally ?es d (initNode d)"]) (simp_all add: tally_def initNode_def edges)
  qed
  with g getOutlinks_total[OF assms] show ?thesis by blast
qed

theorem read_failure_is_local_witness:
  "getAllNotes demoVault = Inr [''a.md'', ''d/b.md'', ''foo.markdown''] \<and>
   vault_readFile demoVault ''d/b.md'' = None \<and>
   ''d/b.md'' \<in> set [''a.md'', ''d/b.md'', ''foo.markdown''] \<and>
   (\<exists>g. getGraph demoVault = Inr g \<and>
        \<not> (\<exists>e\<in>set (graph_edges g). edge_from e = ''d/b.md'') \<and>
        (\<exists>n\<in>set (graph_nodes g). node_id n = ''d/b.md'' \<and> node_outlinks n = 0 \<and>
           node_backlinks n = length (filter (\<lambda>e. edge_to e = ''d/b.md'') (graph_edges g)))) \<and>
   (\<exists>r. getOutlinks demoVault ''b'' = Inr r \<and> outlinks_path r = ''d/b.md'' \<and> outlinks r = [])"
proof -
  have f: "vault_readFile demoVault ''d/b.md'' = None" by code_simp
  have o: "\<And>r. getOutlinks demoVault ''b'' = Inr r \<Longrightarrow> outlinks_path r = ''d/b.md''"
  proof -
    fix r assume "getOutlinks demoVault ''b'' = Inr r"
    moreover have "getOutlinks demoVault ''b'' = Inr \<lparr>outlinks_path = ''d/b.md'', outlinks = []\<rparr>"
      by code_simp
    ultimately show "outlinks_path r = ''d/b.md''" by auto
  qed
  note t = read_failure_is_local[OF getAllNotes_demo]
  from conjunct1[OF t] obtain g where g: "getGraph demoVault = Inr g"
    "\<forall>d. vault_readFile demoVault d = None \<longrightarrow>
       snd (processNote (vault_readFile demoVault)
             (new_Set [''a.md'', ''d/b.md'', ''foo.markdown'']) d) = [] \<and>
       (\<forall>e\<in>set (graph_edges g). edge_from e \<noteq> d) \<and>
       (d \<in> set [''a.md'', ''d/b.md'', ''foo.markdown''] \<longrightarrow>
          (\<exists>n\<in>set (graph_nodes g). node_id n = d \<and> node_outlinks n = 0 \<and>
             node_backlinks n = length (filter (\<lambda>e. edge_to e = d) (graph_edges g))))"
    by blast
  from g(2) f have 1: "\<not> (\<exists>e\<in>set (graph_edges g). edge_from e = ''d/b.md'')"
    and 2: "\<exists>n\<in>set (graph_nodes g). node_id n = ''d/b.md'' \<and> node_outlinks n = 0 \<and>
           node_backlinks n = length (filter (\<lambda>e. edge_to e = ''d/b.md'') (graph_edges g))"
    by auto
  from conjunct2[OF t, THEN spec, of "''b''"] obtain r where r: "getOutlinks demoVault ''b'' = Inr r"
    "vault_readFile demoVault (outlinks_path r) = None \<longrightarrow> outlinks r = []"
    by auto
  from r o[OF r(1)] f have 3: "\<exists>r. getOutlinks demoVault ''b'' = Inr r \<and>
     outlinks_path r = ''d/b.md'' \<and> outlinks r = []"
    by auto
  from getAllNotes_demo f g(1) 1 2 3 show ?thesis by auto
qed

section \<open>The alternate extension\<close>

lemma lowerChar_d: "lowerChar CHR ''d'' = CHR ''d''"
  by (simp add: lowerChar_def)

lemma lowerChar_n: "lowerChar CHR ''n'' = CHR ''n''"
  by (simp add: lowerChar_def)

lemma basename_keeps_suffix:
  assumes "s \<noteq> []" and "CHR ''/'' \<notin> set s" and "suffix s x"
  shows "suffix s (basename x)"
proof -
  from assms(3) obtain u where x: "x = u @ s" by (auto simp: suffix_def)
  from assms(1) obtain c cs where r: "rev s = c # cs" by (cases "rev s") auto
  with assms(2) have c: "c \<noteq> CHR ''/''" by (metis list.set_intros(1) set_rev)
  have d: "dropWhile (\<lambda>c. c = CHR ''/'') (rev s @ rev u) = rev s @ rev u"
    using r c by simp
  have t: "takeWhile (\<lambda>c. c \<noteq> CHR ''/'') (rev s @ rev u) =
           rev s @ takeWhile (\<lambda>c. c \<noteq> CHR ''/'') (rev u)"
    using assms(2) by (intro takeWhile_append2) auto
  show ?thesis by (simp add: basename_def x d t suffix_def)
qed

lemma last_toLowerCase:
  assumes "s \<noteq> []" and "suffix s x"
  shows "last (toLowerCase x) = lowerChar (last s)"
proof -
  from assms(2) obtain u where x: "x = u @ s" by (auto simp: suffix_def)
  with assms(1) show ?thesis by (simp add: toLowerCase_def last_map)
qed

lemma last_lower_md:
  assumes "suffix ''.md'' x"
  shows "last (toLowerCase x) = CHR ''d''" and "last (toLowerCase (basename x)) = CHR ''d''"
proof -
  have b: "suffix ''.md'' (basename x)"
    by (rule basename_keeps_suffix[OF _ _ assms]) simp_all
  show "last (toLowerCase x) = CHR ''d''"
    using last_toLowerCase[OF _ assms] by (simp add: lowerChar_d)
  show "last (toLowerCase (basename x)) = CHR ''d''"
    using last_toLowerCase[OF _ b] by (simp add: lowerChar_d)
qed

lemma last_lower_markdown:
  assumes "suffix ''.markdown'' x"
  shows "last (toLowerCase x) = CHR ''n''" and "last (toLowerCase (basename x)) = CHR ''n''"
proof -
  have b: "suffix ''.markdown'' (basename x)"
    by (rule basename_keeps_suffix[OF _ _ assms]) simp_all
  show "last (toLowerCase x) = CHR ''n''"
    using last_toLowerCase[OF _ assms] by (simp add: lowerChar_n)
  show "last (toLowerCase (basename x)) = CHR ''n''"
    using last_toLowerCase[OF _ b] by (simp add: lowerChar_n)
qed

lemma md_not_markdown: "suffix ''.md'' x \<Longrightarrow> \<not> suffix ''.markdown'' x"
  by (auto simp: suffix_def)

lemma resolveLink_not_markdown:
  assumes "resolveLink t ns sd = Some r"
  shows "\<not> endsWith r ''.markdown''"
proof
  assume "endsWith r ''.markdown''"
  then have mk: "suffix ''.markdown'' r" by (simp add: endsWith_suffix)
  let ?nt = "withMd t"
  have nt: "suffix ''.md'' ?nt" by (rule withMd_suffix)
  let ?P = "\<lambda>m. toLowerCase m = toLowerCase ?nt \<or>
                toLowerCase (basename m) = toLowerCase (basename ?nt)"
  have "r = ?nt \<or> r = sd @ CHR ''/'' # ?nt \<or> find ?P ns = Some r"
  proof (cases "Set_has ns ?nt")
    case True
    with assms show ?thesis by (simp add: resolveLink_def Let_def)
  next
    case False
    show ?thesis
    proof (cases "sd \<noteq> [] \<and> Set_has ns (sd @ ''/'' @ ?nt)")
      case True
      with False assms show ?thesis by (simp add: resolveLink_def Let_def)
    next
      case no: False
      with False assms have "resolveLoop ?nt (toLowerCase ?nt) ns = Some r"
        by (auto simp: resolveLink_def Let_def split: if_splits)
      then show ?thesis by (simp add: resolveLoop_find)
    qed
  qed
  then consider "r = ?nt" | "r = sd @ CHR ''/'' # ?nt" | "find ?P ns = Some r" by blast
  then show False
  proof cases
    case 1
    with nt mk show False by (auto dest: md_not_markdown)
  next
    case 2
    with nt have "suffix ''.md'' r" by (auto simp: suffix_def)
    with mk show False by (auto dest: md_not_markdown)
  next
    case 3
    then have "?P r" by (auto simp: find_Some_iff)
    with last_lower_md[OF nt] last_lower_markdown[OF mk] show False by auto
  qed
qed

text \<open>
  C9: in every graph the builder returns, no edge ends at an identifier with the
  alternate extension \<open>.markdown\<close>, and the \<open>backlinks\<close> counter of a node with such an
  identifier is 0; resolution never returns such an identifier.
\<close>

theorem markdown_note_never_target:
  assumes "getGraph v = Inr g"
  shows "(\<forall>e\<in>set (graph_edges g). \<not> endsWith (edge_to e) ''.markdown'') \<and>
         (\<forall>n\<in>set (graph_nodes g). endsWith (node_id n) ''.markdown'' \<longrightarrow> node_backlinks n = 0) \<and>
         (\<forall>t known sd r. resolveLink t known sd = Some r \<longrightarrow> \<not> endsWith r ''.markdown'')"
proof -
  from assms obtain ns where g: "g = graphOfNotes ns (vault_readFile v)"
    by (auto simp: getGraph_Inr)
  let ?es = "allEdges ns (vault_readFile v)"
  have nodes: "graph_nodes g = map (\<lambda>k. tally ?es k (initNode k)) (new_Set ns)"
    and edges: "graph_edges g = ?es"
    by (simp_all add: g graphOfNotes_closed)
  have e: "\<forall>e\<in>set (graph_edges g). \<not> endsWith (edge_to e) ''.markdown''"
    unfolding edges using allEdges_edge resolveLink_not_markdown by blast
  have "node_backlinks n = 0" if "n \<in> set (graph_nodes g)" "endsWith (node_id n) ''.markdown''" for n
  proof -
    from that(1) obtain k where n: "n = tally ?es k (initNode k)" by (auto simp: nodes)
    then have k: "node_id n = k" by (simp add: tally_def initNode_def)
    with that(2) e have "filter (\<lambda>e. edge_to e = k) ?es = []"
      by (auto simp: edges filter_empty_conv)
    then show ?thesis by (simp add: n tally_def initNode_def)
  qed
  with e resolveLink_not_markdown show ?thesis by blast
qed

theorem markdown_note_never_target_witness:
  "getGraph demoVault = Inr demoGraph \<and>
   extractLinks ''[[foo]] [[b|see b]] [[a]]'' ! 0 = \<lparr>link_target = ''foo.md'', link_alias = None\<rparr> \<and>
   (let e = \<lparr>edge_from = ''a.md'', edge_to = ''d/b.md'', edge_label = Some ''see b''\<rparr>;
        n = \<lparr>node_id = ''foo.markdown'', node_label = ''foo.markdown'', node_links = 1,
             node_outlinks = 1, node_backlinks = 0\<rparr>
    in e \<in> set (graph_edges demoGraph) \<and> \<not> endsWith (edge_to e) ''.markdown'' \<and>
       n \<in> set (graph_nodes demoGraph) \<and> endsWith (node_id n) ''.markdown'' \<and>
       node_backlinks n = 0) \<and>
   resolveLink ''b'' [''a.md'', ''d/b.md'', ''foo.markdown''] [] = Some ''d/b.md'' \<and>
   \<not> endsWith ''d/b.md'' ''.markdown'' \<and>
   resolveLink ''foo'' [''a.md'', ''d/b.md'', ''foo.markdown''] [] = None"
proof -
  let ?e = "\<lparr>edge_from = ''a.md'', edge_to = ''d/b.md'', edge_label = Some ''see b''\<rparr>"
  let ?n = "\<lparr>node_id = ''foo.markdown'', node_label = ''foo.markdown'', node_links = 1,
             node_outlinks = 1, node_backlinks = 0\<rparr>"
  have me: "?e \<in> set (graph_edges demoGraph)" by (simp add: demoGraph_def)
  have mn: "?n \<in> set (graph_nodes demoGraph)" by (simp add: demoGraph_def)
  have en: "endsWith (node_id ?n) ''.markdown''" by (simp add: endsWith_def)
  have x: "extractLinks ''[[foo]] [[b|see b]] [[a]]'' ! 0 = \<lparr>link_target = ''foo.md'', link_alias = None\<rparr>"
    by code_simp
  have r: "resolveLink ''b'' [''a.md'', ''d/b.md'', ''foo.markdown''] [] = Some ''d/b.md''"
    by code_simp
  have u: "resolveLink ''foo'' [''a.md'', ''d/b.md'', ''foo.markdown''] [] = None"
    by code_simp
  note t = markdown_note_never_target[OF getGraph_demo]
  from t me have 1: "\<not> endsWith (edge_to ?e) ''.markdown''" by blast
  from t mn en have 2: "node_backlinks ?n = 0" by blast
  from t r have 3: "\<not> endsWith ''d/b.md'' ''.markdown''" by blast
  from getGraph_demo x me mn en r u 1 2 3 show ?thesis unfolding Let_def by blast
qed

section \<open>Extraction at particular texts\<close>

text \<open>
  C5 at the text \<open>[t](a.md#intro.md)\<close>: the inline link keeps the fragment, and the
  target it yields contains \<open>#\<close>. The fragment of \<open>[t](a.md#intro)\<close> is discarded,
  and the bracket link with the target and fragment of the first text yields \<open>a.md\<close>.
\<close>

theorem markdown_link_keeps_fragment:
  "extractLinks ''[t](a.md#intro.md)'' =
     [\<lparr>link_target = ''a.md#intro.md'', link_alias = Some ''t''\<rparr>] \<and>
   CHR ''#'' \<in> set (link_target (hd (extractLinks ''[t](a.md#intro.md)''))) \<and>
   extractLinks ''[t](a.md#intro)'' = [\<lparr>link_target = ''a.md'', link_alias = Some ''t''\<rparr>] \<and>
   extractLinks ''[[a.md#intro.md|t]]'' = [\<lparr>link_target = ''a.md'', link_alias = Some ''t''\<rparr>]"
  by code_simp

text \<open>
  C7 at a vault with the file \<open>foo.markdown\<close>: the note is enumerated and the label of
  its node is \<open>foo.markdown\<close>, with the extension.
\<close>

theorem markdown_label_keeps_extension:
  "getAllNotes demoVault = Inr [''a.md'', ''d/b.md'', ''foo.markdown''] \<and>
   getGraph demoVault = Inr demoGraph \<and>
   map (\<lambda>n. (node_id n, node_label n)) (graph_nodes demoGraph) =
     [(''a.md'', ''a''), (''d/b.md'', ''b''), (''foo.markdown'', ''foo.markdown'')]"
  by code_simp

section \<open>Backlinks\<close>

lemma truthy_idem: "truthy (truthy a) = truthy a"
  by (simp add: truthy_def split: option.splits)

lemma allEdges_label:
  assumes "e \<in> set (allEdges ns rd)"
  shows "truthy (edge_label e) = edge_label e"
proof -
  from assms obtain p l sd where "e \<in> set (linkEdge p (new_Set ns) sd l)"
    by (auto simp: allEdges_def noteEdges_def processNote_def Let_def split: option.splits)
  then show ?thesis
    by (auto simp: linkEdge_def truthy_idem split: option.splits if_splits)
qed

text \<open>
  C6: the backlinks operation answers with the path normalized to end in \<open>.md\<close> and
  with one entry, in order, for each edge of the built graph whose target is the
  normalized path or ends with \<open>/\<close> followed by it; the entry has the edge's source and
  the edge's alias when there is one. So a query for \<open>x.md\<close> lists every edge to
  \<open>x.md\<close> and every edge to \<open>folder/x.md\<close>.
\<close>

theorem getBacklinks_matches:
  assumes "getGraph v = Inr g"
  shows "(\<exists>r. getBacklinks v p = Inr r \<and> backlinks_path r = withMd p \<and>
            backlinks r =
              map (\<lambda>e. \<lparr>backlink_from = edge_from e, backlink_context = edge_label e\<rparr>)
                (filter (\<lambda>e. edge_to e = withMd p \<or> (\<exists>d. edge_to e = d @ ''/'' @ withMd p))
                   (graph_edges g))) \<and>
         (\<exists>r. getBacklinks v ''x.md'' = Inr r \<and>
            (\<forall>e\<in>set (graph_edges g).
               edge_to e = ''x.md'' \<or> edge_to e = ''folder/x.md'' \<longrightarrow>
               \<lparr>backlink_from = edge_from e, backlink_context = edge_label e\<rparr>
                 \<in> set (backlinks r)))"
proof -
  from assms obtain ns where g: "g = graphOfNotes ns (vault_readFile v)"
    by (auto simp: getGraph_Inr)
  have edges: "graph_edges g = allEdges ns (vault_readFile v)"
    by (simp add: g graphOfNotes_closed)
  have gen: "\<exists>r. getBacklinks v q = Inr r \<and> backlinks_path r = withMd q \<and>
            backlinks r =
              map (\<lambda>e. \<lparr>backlink_from = edge_from e, backlink_context = edge_label e\<rparr>)
                (filter (\<lambda>e. edge_to e = withMd q \<or> (\<exists>d. edge_to e = d @ ''/'' @ withMd q))
                   (graph_edges g))" for q
  proof -
    have f: "filter (\<lambda>edge. edge_to edge = withMd q \<or> endsWith (edge_to edge) (''/'' @ withMd q))
               (graph_edges g) =
             filter (\<lambda>e. edge_to e = withMd q \<or> (\<exists>d. edge_to e = d @ ''/'' @ withMd q))
               (graph_edges g)"
      by (rule filter_cong) (auto simp: endsWith_suffix suffix_def)
    have m: "map (\<lambda>edge. \<lparr>backlink_from = edge_from edge,
                            backlink_context = truthy (edge_label edge)\<rparr>) es =
             map (\<lambda>e. \<lparr>backlink_from = edge_from e, backlink_context = edge_label e\<rparr>) es"
      if "set es \<subseteq> set (graph_edges g)" for es
      using that by (intro map_cong) (auto simp: edges allEdges_label)
    have step: "getBacklinks v q =
          Inr \<lparr>backlinks_path = withMd q,
               backlinks =
                 map (\<lambda>edge. \<lparr>backlink_from = edge_from edge,
                                backlink_context = truthy (edge_label edge)\<rparr>)
                   (filter (\<lambda>edge. edge_to edge = withMd q \<or>
                                     endsWith (edge_to edge) (''/'' @ withMd q))
                      (graph_edges g))\<rparr>"
      using assms by (simp add: getBacklinks_def Let_def withMd_def)
    from step[unfolded f] show ?thesis by (simp add: m)
  qed
  from gen[of "''x.md''"] obtain r where r: "getBacklinks v ''x.md'' = Inr r"
    "backlinks r =
       map (\<lambda>e. \<lparr>backlink_from = edge_from e, backlink_context = edge_label e\<rparr>)
         (filter (\<lambda>e. edge_to e = withMd ''x.md'' \<or> (\<exists>d. edge_to e = d @ ''/'' @ withMd ''x.md''))
            (graph_edges g))"
    by blast
  have w: "withMd ''x.md'' = ''x.md''" by (simp add: withMd_def endsWith_def)
  have "\<forall>e\<in>set (graph_edges g).
          edge_to e = ''x.md'' \<or> edge_to e = ''folder/x.md'' \<longrightarrow>
          \<lparr>backlink_from = edge_from e, backlink_context = edge_label e\<rparr> \<in> set (backlinks r)"
  proof (intro ballI impI)
    fix e assume e: "e \<in> set (graph_edges g)"
      and t: "edge_to e = ''x.md'' \<or> edge_to e = ''folder/x.md''"
    have "''folder/x.md'' = ''folder'' @ ''/'' @ ''x.md''" by simp
    with t have "edge_to e = withMd ''x.md'' \<or> (\<exists>d. edge_to e = d @ ''/'' @ withMd ''x.md'')"
      unfolding w by metis
    with e show "\<lparr>backlink_from = edge_from e, backlink_context = edge_label e\<rparr> \<in> set (backlinks r)"
      unfolding r(2) set_map by (intro image_eqI[where x = e]) auto
  qed
  with r(1) gen[of p] show ?thesis by blast
qed

lemma getGraph_backlinkVault: "getGraph backlinkVault = Inr backlinkGraph"
  by code_simp

theorem getBacklinks_matches_witness:
  "getGraph backlinkVault = Inr backlinkGraph \<and>
   \<lparr>edge_from = ''a.md'', edge_to = ''x.md'', edge_label = None\<rparr>
     \<in> set (graph_edges backlinkGraph) \<and>
   \<lparr>edge_from = ''a.md'', edge_to = ''folder/x.md'', edge_label = Some ''F''\<rparr>
     \<in> set (graph_edges backlinkGraph) \<and>
   (\<exists>r. getBacklinks backlinkVault ''x.md'' = Inr r \<and>
        \<lparr>backlink_from = ''a.md'', backlink_context = None\<rparr> \<in> set (backlinks r) \<and>
        \<lparr>backlink_from = ''a.md'', backlink_context = Some ''F''\<rparr> \<in> set (backlinks r))"
proof -
  let ?e1 = "\<lparr>edge_from = ''a.md'', edge_to = ''x.md'', edge_label = None\<rparr>"
  let ?e2 = "\<lparr>edge_from = ''a.md'', edge_to = ''folder/x.md'', edge_label = Some ''F''\<rparr>"
  have m1: "?e1 \<in> set (graph_edges backlinkGraph)" by (simp add: backlinkGraph_def)
  have m2: "?e2 \<in> set (graph_edges backlinkGraph)" by (simp add: backlinkGraph_def)
  from conjunct2[OF getBacklinks_matches[OF getGraph_backlinkVault]]
  obtain r where r: "getBacklinks backlinkVault ''x.md'' = Inr r"
    "\<forall>e\<in>set (graph_edges backlinkGraph).
       edge_to e = ''x.md'' \<or> edge_to e = ''folder/x.md'' \<longrightarrow>
       \<lparr>backlink_from = edge_from e, backlink_context = edge_label e\<rparr> \<in> set (backlinks r)"
    by auto
  from r(2)[rule_format, OF m1] r(2)[rule_format, OF m2]
  have "\<lparr>backlink_from = ''a.md'', backlink_context = None\<rparr> \<in> set (backlinks r)"
    and "\<lparr>backlink_from = ''a.md'', backlink_context = Some ''F''\<rparr> \<in> set (backlinks r)"
    by simp_all
  with r(1) m1 m2 getGraph_backlinkVault show ?thesis by blast
qed

section \<open>Unresolved links\<close>

lemma unresolvedStep_mono: "set u \<subseteq> set (unresolvedStep NS sd u l)"
  by (auto simp: unresolvedStep_def Let_def)

lemma foldl_unresolvedStep_mono: "set u \<subseteq> set (foldl (unresolvedStep NS sd) u ls)"
proof (induction ls arbitrary: u)
  case Nil
  then show ?case by simp
next
  case (Cons l ls)
  from unresolvedStep_mono[of u NS sd l] Cons[of "unresolvedStep NS sd u l"]
  show ?case by auto
qed

lemma unresolvedNote_mono: "set u \<subseteq> set (unresolvedNote rd NS u p)"
  by (auto simp: unresolvedNote_def Let_def split: option.splits
        dest: subsetD[OF foldl_unresolvedStep_mono])

lemma foldl_unresolvedNote_mono: "set u \<subseteq> set (foldl (unresolvedNote rd NS) u ps)"
proof (induction ps arbitrary: u)
  case Nil
  then show ?case by simp
next
  case (Cons p ps)
  from unresolvedNote_mono[of u rd NS p] Cons[of "unresolvedNote rd NS u p"]
  show ?case by auto
qed

lemma extractLinks_blank:
  "extractLinks ''[[ ]]'' = [\<lparr>link_target = ''.md'', link_alias = None\<rparr>]"
  by code_simp

lemma unresolvedNote_blank:
  assumes "rd p = Some ''[[ ]]''" and "resolveLink ''.md'' NS (sourceDirOf p) = None"
  shows "[] \<in> set (unresolvedNote rd NS u p)"
  using assms
  by (simp add: unresolvedNote_def Let_def extractLinks_blank unresolvedStep_def stripMd_def
        endsWith_def)

lemma foldl_unresolvedNote_blank:
  assumes "p \<in> set ps" and "rd p = Some ''[[ ]]''"
    and "resolveLink ''.md'' NS (sourceDirOf p) = None"
  shows "[] \<in> set (foldl (unresolvedNote rd NS) u ps)"
proof -
  from assms(1) obtain pre post where ps: "ps = pre @ p # post"
    by (auto simp: in_set_conv_decomp)
  have "[] \<in> set (unresolvedNote rd NS (foldl (unresolvedNote rd NS) u pre) p)"
    using assms(2,3) by (rule unresolvedNote_blank[of rd p NS])
  then show ?thesis
    unfolding ps using foldl_unresolvedNote_mono by (simp, blast)
qed

text \<open>
  C10: the extractor emits a raw link for the text \<open>[[ ]]\<close>, with the target \<open>.md\<close>;
  in the statistics of a vault in which a note has this content and the target \<open>.md\<close>
  does not resolve from that note, the unresolved-links list contains the empty string.
\<close>

theorem blank_bracket_link:
  "extractLinks ''[[ ]]'' = [\<lparr>link_target = ''.md'', link_alias = None\<rparr>] \<and>
   (\<forall>v hubCount ns p.
      getAllNotes v = Inr ns \<and> p \<in> set ns \<and> vault_readFile v p = Some ''[[ ]]'' \<and>
      resolveLink ''.md'' (new_Set ns) (sourceDirOf p) = None \<longrightarrow>
      (\<exists>stats. getGraphStats v hubCount = Inr stats \<and> [] \<in> set (unresolvedLinks stats)))"
proof (intro conjI allI impI)
  show "extractLinks ''[[ ]]'' = [\<lparr>link_target = ''.md'', link_alias = None\<rparr>]"
    by (rule extractLinks_blank)
next
  fix v hubCount ns p
  assume a: "getAllNotes v = Inr ns \<and> p \<in> set ns \<and> vault_readFile v p = Some ''[[ ]]'' \<and>
      resolveLink ''.md'' (new_Set ns) (sourceDirOf p) = None"
  let ?g = "graphOfNotes ns (vault_readFile v)"
  have g: "getGraph v = Inr ?g" using a by (simp add: getGraph_def)
  have ids: "new_Set (map node_id (graph_nodes ?g)) = new_Set ns"
    by (simp add: node_ids_closed new_Set_idem)
  have "[] \<in> set (foldl (unresolvedNote (vault_readFile v) (new_Set ns)) [] ns)"
    using a by (intro foldl_unresolvedNote_blank[of p]) simp_all
  then show "\<exists>stats. getGraphStats v hubCount = Inr stats \<and> [] \<in> set (unresolvedLinks stats)"
    using a by (simp add: getGraphStats_def g Let_def ids)
qed

theorem blank_bracket_link_witness:
  "getAllNotes blankVault = Inr [''c.md''] \<and> ''c.md'' \<in> set [''c.md''] \<and>
   vault_readFile blankVault ''c.md'' = Some ''[[ ]]'' \<and>
   resolveLink ''.md'' (new_Set [''c.md'']) (sourceDirOf ''c.md'') = None \<and>
   (\<exists>stats. getGraphStats blankVault 10 = Inr stats \<and> [] \<in> set (unresolvedLinks stats))"
proof -
  have 1: "getAllNotes blankVault = Inr [''c.md'']" by code_simp
  have 2: "vault_readFile blankVault ''c.md'' = Some ''[[ ]]''" by code_simp
  have 3: "resolveLink ''.md'' (new_Set [''c.md'']) (sourceDirOf ''c.md'') = None" by code_simp
  have 4: "''c.md'' \<in> set [''c.md'']" by simp
  from conjunct2[OF blank_bracket_link, rule_format, of blankVault "[''c.md'']" "''c.md''" 10]
    1 2 3 4
  have "\<exists>stats. getGraphStats blankVault 10 = Inr stats \<and> [] \<in> set (unresolvedLinks stats)"
    by blast
  with 1 2 3 4 show ?thesis by blast
qed

section \<open>Distances\<close>

lemma reach_0_iff: "reach es c 0 x \<longleftrightarrow> x = c"
  by (auto intro: reach.intros elim: reach.cases)

lemma near_0: "near es c 0 = {c}"
  by (auto simp: near_def reach_0_iff)

lemma near_mono: "j \<le> k \<Longrightarrow> near es c j \<subseteq> near es c k"
  unfolding near_def using order_trans by blast

lemma near_step: "a \<in> near es c k \<Longrightarrow> adjacent es a b \<Longrightarrow> b \<in> near es c (Suc k)"
  by (auto simp: near_def intro: reach_Suc)

lemma near_Suc_cases:
  assumes "b \<in> near es c (Suc k)" and "b \<notin> near es c k"
  shows "\<exists>a. a \<in> near es c k \<and> (\<forall>j<k. a \<notin> near es c j) \<and> adjacent es a b"
proof -
  from assms have r: "reach es c (Suc k) b"
    by (auto simp: near_def le_Suc_eq)
  then obtain a where a: "reach es c k a" "adjacent es a b"
    by (auto elim: reach.cases)
  have "a \<notin> near es c j" if "j < k" for j
  proof
    assume "a \<in> near es c j"
    from near_step[OF this a(2)] near_mono[of "Suc j" k es c] that assms(2)
    show False by auto
  qed
  with a show ?thesis by (auto simp: near_def)
qed

section \<open>One expansion of the search\<close>

lemma nbrs_Nil: "nbrs [] v = {}"
  by (simp add: nbrs_def adjacent_def)

lemma nbrs_Cons: "nbrs (e # es) v = nbrs [e] v \<union> nbrs es v"
  by (auto simp: nbrs_def adjacent_def)

lemma visitEdge_char:
  assumes "visitEdge v h (inc, q) e = (inc', q')"
  shows "set inc' = set inc \<union> nbrs [e] v \<and>
         (\<exists>new. q' = q @ new \<and> fst ` set new = nbrs [e] v - set inc \<and>
                 snd ` set new \<subseteq> {Suc h})"
proof -
  consider (both) "edge_from e = v" "edge_to e = v"
    | (out) "edge_from e = v" "edge_to e \<noteq> v"
    | (inn) "edge_from e \<noteq> v" "edge_to e = v"
    | (none) "edge_from e \<noteq> v" "edge_to e \<noteq> v"
    by blast
  then show ?thesis
  proof cases
    case both
    then have n: "nbrs [e] v = {v}" by (auto simp: nbrs_def adjacent_def)
    show ?thesis
    proof (cases "v \<in> set inc")
      case True
      with both assms show ?thesis
        by (auto simp: visitEdge_def Set_has_def Set_add_def Let_def n)
    next
      case False
      with both assms have "inc' = inc @ [v]" "q' = q @ [(v, Suc h)]"
        by (auto simp: visitEdge_def Set_has_def Set_add_def Let_def)
      with False show ?thesis by (auto simp: n)
    qed
  next
    case out
    then have n: "nbrs [e] v = {edge_to e}" by (auto simp: nbrs_def adjacent_def)
    show ?thesis
    proof (cases "edge_to e \<in> set inc")
      case True
      with out assms show ?thesis
        by (auto simp: visitEdge_def Set_has_def Set_add_def Let_def n)
    next
      case False
      with out assms have "inc' = inc @ [edge_to e]" "q' = q @ [(edge_to e, Suc h)]"
        by (auto simp: visitEdge_def Set_has_def Set_add_def Let_def)
      with False show ?thesis by (auto simp: n)
    qed
  next
    case inn
    then have n: "nbrs [e] v = {edge_from e}" by (auto simp: nbrs_def adjacent_def)
    show ?thesis
    proof (cases "edge_from e \<in> set inc")
      case True
      with inn assms show ?thesis
        by (auto simp: visitEdge_def Set_has_def Set_add_def Let_def n)
    next
      case False
      with inn assms have "inc' = inc @ [edge_from e]" "q' = q @ [(edge_from e, Suc h)]"
        by (auto simp: visitEdge_def Set_has_def Set_add_def Let_def)
      with False show ?thesis by (auto simp: n)
    qed
  next
    case none
    then have n: "nbrs [e] v = {}" by (auto simp: nbrs_def adjacent_def)
    from none assms show ?thesis
      by (auto simp: visitEdge_def Set_has_def Set_add_def Let_def n)
  qed
qed

lemma foldl_visitEdge_char:
  assumes "foldl (visitEdge v h) (inc, q) es = (inc', q')"
  shows "set inc' = set inc \<union> nbrs es v \<and>
         (\<exists>new. q' = q @ new \<and> fst ` set new = nbrs es v - set inc \<and>
                 snd ` set new \<subseteq> {Suc h})"
  using assms
proof (induction es arbitrary: inc q)
  case Nil
  then show ?case by (auto simp: nbrs_Nil)
next
  case (Cons e es)
  obtain inc1 q1 where s: "visitEdge v h (inc, q) e = (inc1, q1)"
    by (cases "visitEdge v h (inc, q) e")
  from visitEdge_char[OF s] obtain new1 where
    1: "set inc1 = set inc \<union> nbrs [e] v" "q1 = q @ new1"
       "fst ` set new1 = nbrs [e] v - set inc" "snd ` set new1 \<subseteq> {Suc h}"
    by blast
  from Cons.prems s have "foldl (visitEdge v h) (inc1, q1) es = (inc', q')" by simp
  from Cons.IH[OF this] obtain new2 where
    2: "set inc' = set inc1 \<union> nbrs es v" "q' = q1 @ new2"
       "fst ` set new2 = nbrs es v - set inc1" "snd ` set new2 \<subseteq> {Suc h}"
    by blast
  have "set inc' = set inc \<union> nbrs (e # es) v"
    using 1(1) 2(1) nbrs_Cons[of e es v] by auto
  moreover have "q' = q @ (new1 @ new2)" using 1(2) 2(2) by simp
  moreover have "fst ` set (new1 @ new2) = nbrs (e # es) v - set inc"
    using 1(1,3) 2(3) nbrs_Cons[of e es v] by (simp add: image_Un) blast
  moreover have "snd ` set (new1 @ new2) \<subseteq> {Suc h}"
    using 1(4) 2(4) by (simp add: image_Un)
  ultimately show ?case by blast
qed

section \<open>The invariant of the search\<close>

lemma bfs_inv_init: "bfs_inv es c D [c] [(c, 0)]"
  using near_mono[of 0 D es c] by (simp add: bfs_inv_def near_0)

lemma bfs_inv_final:
  assumes "bfs_inv es c D inc []"
  shows "set inc = near es c D"
proof
  from assms show "set inc \<subseteq> near es c D" by (simp add: bfs_inv_def)
  from assms have c: "c \<in> set inc"
    and closed: "\<And>v k. v \<in> set inc \<Longrightarrow> k < D \<Longrightarrow> v \<in> near es c k \<Longrightarrow> nbrs es v \<subseteq> set inc"
    by (auto simp: bfs_inv_def)
  have "k \<le> D \<Longrightarrow> near es c k \<subseteq> set inc" for k
  proof (induction k)
    case 0
    with c show ?case by (simp add: near_0)
  next
    case (Suc k)
    then have IH: "near es c k \<subseteq> set inc" and k: "k < D" by auto
    show ?case
    proof
      fix u assume u: "u \<in> near es c (Suc k)"
      show "u \<in> set inc"
      proof (cases "u \<in> near es c k")
        case True
        with IH show ?thesis by auto
      next
        case False
        from near_Suc_cases[OF u False] obtain a where
          a: "a \<in> near es c k" "adjacent es a u" by blast
        with IH closed[of a k] k show ?thesis by (auto simp: nbrs_def)
      qed
    qed
  qed
  then show "near es c D \<subseteq> set inc" by simp
qed

lemma bfs_inv_skip:
  assumes inv: "bfs_inv es c D inc ((v, h) # rest)" and h: "D \<le> h"
  shows "bfs_inv es c D inc rest"
proof -
  from inv have c: "c \<in> set inc"
    and ent: "\<And>w d. (w, d) \<in> set ((v, h) # rest) \<Longrightarrow>
                w \<in> set inc \<and> w \<in> near es c d \<and> (\<forall>j<d. w \<notin> near es c j) \<and> d \<le> D"
    and srt: "sorted (h # map snd rest)"
    and two: "\<And>d. d \<in> snd ` set rest \<Longrightarrow> d \<le> Suc h"
    and snd: "set inc \<subseteq> near es c D"
    and don: "\<And>w k. w \<in> set inc \<Longrightarrow> w \<notin> fst ` set ((v, h) # rest) \<Longrightarrow> k < D \<Longrightarrow>
                w \<in> near es c k \<Longrightarrow> nbrs es w \<subseteq> set inc"
    and lvl: "near es c h \<subseteq> set inc"
    by (auto simp: bfs_inv_def)
  from ent[of v h] h have hD: "h = D" and vex: "\<forall>j<h. v \<notin> near es c j" by auto
  have ge: "\<And>d. d \<in> snd ` set rest \<Longrightarrow> h \<le> d" using srt by auto
  have 2: "\<forall>(w, d)\<in>set rest. w \<in> set inc \<and> w \<in> near es c d \<and>
             (\<forall>j<d. w \<notin> near es c j) \<and> d \<le> D"
    using ent by auto
  have 3: "sorted (map snd rest)" using srt by simp
  have 4: "\<forall>d\<in>snd ` set rest. d \<le> Suc (snd (hd rest))"
  proof
    fix d assume d: "d \<in> snd ` set rest"
    then have "rest \<noteq> []" by auto
    then have "snd (hd rest) \<in> snd ` set rest" by (cases rest) auto
    from ge[OF this] two[OF d] show "d \<le> Suc (snd (hd rest))" by simp
  qed
  have 6: "\<forall>w\<in>set inc. w \<notin> fst ` set rest \<longrightarrow>
             (\<forall>k<D. w \<in> near es c k \<longrightarrow> nbrs es w \<subseteq> set inc)"
  proof (intro ballI impI allI)
    fix w k assume w: "w \<in> set inc" "w \<notin> fst ` set rest" "k < D" "w \<in> near es c k"
    show "nbrs es w \<subseteq> set inc"
    proof (cases "w = v")
      case True
      with vex w(3,4) hD show ?thesis by auto
    next
      case False
      with w(2) have "w \<notin> fst ` set ((v, h) # rest)" by auto
      from don[OF w(1) this w(3,4)] show ?thesis .
    qed
  qed
  have 7: "rest \<noteq> [] \<longrightarrow> near es c (snd (hd rest)) \<subseteq> set inc"
  proof
    assume "rest \<noteq> []"
    then obtain w d where hd: "hd rest = (w, d)" "(w, d) \<in> set rest"
      by (cases rest) auto
    then have "d \<in> snd ` set rest" by force
    from ge[OF this] ent[of w d] hd(2) hD have "d = h" by auto
    with hd lvl show "near es c (snd (hd rest)) \<subseteq> set inc" by simp
  qed
  from c 2 3 4 snd 6 7 show ?thesis unfolding bfs_inv_def by blast
qed

lemma sorted_const: "\<forall>x\<in>set xs. x = a \<Longrightarrow> sorted xs"
  by (induction xs) auto

lemma bfs_inv_expand:
  assumes inv: "bfs_inv es c D inc ((v, h) # rest)" and h: "h < D"
    and step: "foldl (visitEdge v h) (inc, rest) es = (inc', q')"
  shows "bfs_inv es c D inc' q'"
proof -
  from inv have c: "c \<in> set inc"
    and ent: "\<And>w d. (w, d) \<in> set ((v, h) # rest) \<Longrightarrow>
                w \<in> set inc \<and> w \<in> near es c d \<and> (\<forall>j<d. w \<notin> near es c j) \<and> d \<le> D"
    and srt: "sorted (h # map snd rest)"
    and two: "\<And>d. d \<in> snd ` set rest \<Longrightarrow> d \<le> Suc h"
    and snd: "set inc \<subseteq> near es c D"
    and don: "\<And>w k. w \<in> set inc \<Longrightarrow> w \<notin> fst ` set ((v, h) # rest) \<Longrightarrow> k < D \<Longrightarrow>
                w \<in> near es c k \<Longrightarrow> nbrs es w \<subseteq> set inc"
    and lvl: "near es c h \<subseteq> set inc"
    by (auto simp: bfs_inv_def)
  from foldl_visitEdge_char[OF step] obtain new where
    inc': "set inc' = set inc \<union> nbrs es v" and q': "q' = rest @ new"
    and newn: "fst ` set new = nbrs es v - set inc" and newd: "snd ` set new \<subseteq> {Suc h}"
    by blast
  from ent[of v h] have v: "v \<in> near es c h" by simp
  have ge: "\<And>d. d \<in> snd ` set rest \<Longrightarrow> h \<le> d" using srt by auto
  have nb: "\<And>u. u \<in> nbrs es v \<Longrightarrow> u \<in> near es c (Suc h)"
    using near_step[OF v] by (simp add: nbrs_def)
  have newe: "\<And>w d. (w, d) \<in> set new \<Longrightarrow> d = Suc h \<and> w \<in> nbrs es v \<and> w \<notin> set inc"
  proof -
    fix w d assume m: "(w, d) \<in> set new"
    then have "d \<in> snd ` set new" "w \<in> fst ` set new" by force+
    with newd newn show "d = Suc h \<and> w \<in> nbrs es v \<and> w \<notin> set inc" by auto
  qed
  have 1: "c \<in> set inc'" using c inc' by simp
  have 2: "\<forall>(w, d)\<in>set q'. w \<in> set inc' \<and> w \<in> near es c d \<and>
             (\<forall>j<d. w \<notin> near es c j) \<and> d \<le> D"
  proof (intro ballI, clarify)
    fix w d assume m: "(w, d) \<in> set q'"
    show "w \<in> set inc' \<and> w \<in> near es c d \<and> (\<forall>j<d. w \<notin> near es c j) \<and> d \<le> D"
    proof (cases "(w, d) \<in> set rest")
      case True
      with ent[of w d] inc' show ?thesis by auto
    next
      case False
      with m q' have n: "(w, d) \<in> set new" by simp
      from newe[OF n] have d: "d = Suc h" and w: "w \<in> nbrs es v" "w \<notin> set inc" by auto
      have "w \<notin> near es c j" if "j < d" for j
        using that d near_mono[of j h es c] lvl w(2) by auto
      with d w nb[OF w(1)] inc' h show ?thesis by auto
    qed
  qed
  have 3: "sorted (map snd q')"
  proof -
    have "sorted (map snd new)" using newd by (intro sorted_const[of _ "Suc h"]) auto
    moreover have "sorted (map snd rest)" using srt by simp
    moreover have "\<forall>x\<in>set (map snd rest). \<forall>y\<in>set (map snd new). x \<le> y"
    proof (intro ballI)
      fix x y assume "x \<in> set (map snd rest)" and "y \<in> set (map snd new)"
      then have "x \<in> snd ` set rest" and "y \<in> snd ` set new" by simp_all
      with two[of x] newd show "x \<le> y" by auto
    qed
    ultimately show ?thesis by (simp add: q' sorted_append)
  qed
  have hdge: "h \<le> snd (hd q')" if "q' \<noteq> []"
  proof -
    from that have "hd q' \<in> set q'" by simp
    then have "snd (hd q') \<in> snd ` set rest \<or> snd (hd q') \<in> snd ` set new"
      by (auto simp: q')
    with ge newd show ?thesis by auto
  qed
  have 4: "\<forall>d\<in>snd ` set q'. d \<le> Suc (snd (hd q'))"
  proof
    fix d assume d: "d \<in> snd ` set q'"
    then have ne: "q' \<noteq> []" by auto
    from d have "d \<le> Suc h" using two newd by (auto simp: q')
    with hdge[OF ne] show "d \<le> Suc (snd (hd q'))" by simp
  qed
  have 5: "set inc' \<subseteq> near es c D"
    using snd nb near_mono[of "Suc h" D es c] h by (auto simp: inc')
  have 6: "\<forall>w\<in>set inc'. w \<notin> fst ` set q' \<longrightarrow>
             (\<forall>k<D. w \<in> near es c k \<longrightarrow> nbrs es w \<subseteq> set inc')"
  proof (intro ballI impI allI)
    fix w k assume w: "w \<in> set inc'" "w \<notin> fst ` set q'" "k < D" "w \<in> near es c k"
    show "nbrs es w \<subseteq> set inc'"
    proof (cases "w = v")
      case True
      then show ?thesis by (simp add: inc')
    next
      case False
      from w(2) have nr: "w \<notin> fst ` set rest" and nn: "w \<notin> fst ` set new"
        by (auto simp: q')
      from nn newn w(1) have "w \<in> set inc" by (auto simp: inc')
      moreover from False nr have "w \<notin> fst ` set ((v, h) # rest)" by auto
      ultimately have "nbrs es w \<subseteq> set inc" using don w(3,4) by blast
      then show ?thesis by (auto simp: inc')
    qed
  qed
  have 7: "q' \<noteq> [] \<longrightarrow> near es c (snd (hd q')) \<subseteq> set inc'"
  proof
    assume ne: "q' \<noteq> []"
    let ?h' = "snd (hd q')"
    from ne have "?h' \<in> snd ` set q'" by simp
    then have le: "?h' \<le> Suc h" using two newd by (auto simp: q')
    have all_ge: "\<And>w d. (w, d) \<in> set rest \<Longrightarrow> ?h' \<le> d"
    proof -
      fix w d assume m: "(w, d) \<in> set rest"
      then have "rest \<noteq> []" by auto
      then have "hd q' = hd rest" by (simp add: q')
      moreover have "\<forall>x\<in>set (map snd rest). snd (hd rest) \<le> x"
        using srt \<open>rest \<noteq> []\<close> by (cases rest) auto
      ultimately show "?h' \<le> d" using m by force
    qed
    show "near es c ?h' \<subseteq> set inc'"
    proof (cases "?h' = Suc h")
      case False
      with le hdge[OF ne] have "?h' = h" by simp
      with lvl show ?thesis by (auto simp: inc')
    next
      case True
      show ?thesis
      proof
        fix u assume u: "u \<in> near es c ?h'"
        show "u \<in> set inc'"
        proof (cases "u \<in> near es c h")
          case True
          with lvl show ?thesis by (auto simp: inc')
        next
          case False
          from u \<open>?h' = Suc h\<close> have "u \<in> near es c (Suc h)" by simp
          from near_Suc_cases[OF this False] obtain a where
            a: "a \<in> near es c h" "\<forall>j<h. a \<notin> near es c j" "adjacent es a u" by blast
          show ?thesis
          proof (cases "a = v")
            case True
            with a(3) show ?thesis by (simp add: inc' nbrs_def)
          next
            case av: False
            have "a \<notin> fst ` set rest"
            proof
              assume "a \<in> fst ` set rest"
              then obtain d where m: "(a, d) \<in> set rest" by auto
              from ent[of a d] m have "\<forall>j<d. a \<notin> near es c j" by simp
              with a(1) have "d \<le> h" by (meson not_le_imp_less)
              with all_ge[OF m] \<open>?h' = Suc h\<close> show False by simp
            qed
            with av have "a \<notin> fst ` set ((v, h) # rest)" by auto
            moreover from a(1) lvl have "a \<in> set inc" by auto
            ultimately have "nbrs es a \<subseteq> set inc" using don[of a h] h a(1) by blast
            with a(3) show ?thesis by (auto simp: inc' nbrs_def)
          qed
        qed
      qed
    qed
  qed
  from 1 2 3 4 5 6 7 show ?thesis unfolding bfs_inv_def by blast
qed

lemma bfs_near:
  assumes "bfs_inv es c (nat depth) inc q"
  shows "set (bfs es depth inc q) = near es c (nat depth)"
  using assms
proof (induction es depth inc q rule: bfs.induct)
  case (1 es depth included)
  then show ?case by (simp add: bfs.simps bfs_inv_final)
next
  case (2 es depth included ident currentDepth queue)
  show ?case
  proof (cases "depth \<le> int currentDepth")
    case True
    then have "nat depth \<le> currentDepth" by simp
    from bfs_inv_skip[OF "2.prems" this] "2.IH"(1)[OF True] True
    show ?thesis by (simp add: bfs.simps)
  next
    case False
    then have lt: "currentDepth < nat depth" by simp
    obtain inc' q' where
      f: "foldl (visitEdge ident currentDepth) (included, queue) es = (inc', q')"
      by (cases "foldl (visitEdge ident currentDepth) (included, queue) es")
    from "2.IH"(2)[OF False f[symmetric] bfs_inv_expand[OF "2.prems" lt f]] False f
    show ?thesis by (simp add: bfs.simps)
  qed
qed

lemma bfs_from_center:
  "set (bfs es depth [c] [(c, 0)]) = near es c (nat depth)"
  by (rule bfs_near[OF bfs_inv_init])

section \<open>The local subgraph is the induced subgraph of a ball\<close>

lemma getGraph_chainVault: "getGraph chainVault = Inr chainGraph"
  by code_simp

lemma reach_endpoint:
  assumes "reach es c k x"
  shows "x = c \<or> x \<in> edge_from ` set es \<union> edge_to ` set es"
  using assms by (induction rule: reach.induct) (auto simp: adjacent_def)

lemma filter_distinct_key:
  assumes "distinct (map f xs)" and "x \<in> set xs"
  shows "filter (\<lambda>y. f y = f x) xs = [x]"
  using assms
proof (induction xs)
  case Nil
  then show ?case by simp
next
  case (Cons a xs)
  show ?case
  proof (cases "a = x")
    case True
    with Cons.prems have "f x \<notin> f ` set xs" by simp
    then have "\<forall>y\<in>set xs. f y \<noteq> f x" by (metis imageI)
    then have "filter (\<lambda>y. f y = f x) xs = []" by (simp add: filter_empty_conv)
    with True show ?thesis by simp
  next
    case False
    with Cons.prems have "x \<in> set xs" "f a \<noteq> f x" by auto
    with Cons show ?thesis by simp
  qed
qed

lemma findCenter_in: "findCenter ns p = Some n \<Longrightarrow> n \<in> set ns"
  by (auto simp: findCenter_def find_Some_iff split: option.splits)

text \<open>
  C4: when the center is located in the built graph and the depth \<open>d\<close> (1 when none is
  given) is not negative, the local subgraph has the nodes of the full graph, in their
  order, whose identifier is at undirected distance at most \<open>d\<close> from the center's, and
  the edges of the full graph, in their order, with both ends at such a distance; the
  identifiers of its nodes are exactly the identifiers at distance at most \<open>d\<close>. With
  depth 0 it has the center node alone and no edge.
\<close>

theorem getLocalGraph_induced:
  assumes "getGraph v = Inr g"
    and "findCenter (graph_nodes g) (withMd (params_path params)) = Some center"
    and "d = (case params_depth params of None \<Rightarrow> 1 | Some d \<Rightarrow> d)"
    and "0 \<le> d"
  shows "\<exists>lg. getLocalGraph v params = Inr lg \<and>
           node_id ` set (graph_nodes lg) = near (graph_edges g) (node_id center) (nat d) \<and>
           graph_nodes lg =
             filter (\<lambda>n. node_id n \<in> near (graph_edges g) (node_id center) (nat d))
               (graph_nodes g) \<and>
           graph_edges lg =
             filter (\<lambda>e. edge_from e \<in> near (graph_edges g) (node_id center) (nat d) \<and>
                          edge_to e \<in> near (graph_edges g) (node_id center) (nat d))
               (graph_edges g) \<and>
           (d = 0 \<longrightarrow> graph_nodes lg = [center] \<and> graph_edges lg = [])"
proof -
  let ?es = "graph_edges g"
  let ?c = "node_id center"
  let ?B = "near ?es ?c (nat d)"
  let ?lg = "\<lparr>graph_nodes = filter (\<lambda>n. node_id n \<in> ?B) (graph_nodes g),
              graph_edges = filter (\<lambda>e. edge_from e \<in> ?B \<and> edge_to e \<in> ?B) ?es\<rparr>"
  from assms(1) obtain ns where g: "g = graphOfNotes ns (vault_readFile v)"
    by (auto simp: getGraph_Inr)
  have edges: "?es = allEdges ns (vault_readFile v)" by (simp add: g graphOfNotes_closed)
  have ids: "map node_id (graph_nodes g) = new_Set ns" by (simp add: g node_ids_closed)
  have dist: "distinct (map node_id (graph_nodes g))" by (simp add: ids distinct_new_Set)
  have idset: "node_id ` set (graph_nodes g) = set ns"
    using ids set_new_Set[of ns] by (metis set_map)
  have cin: "center \<in> set (graph_nodes g)" by (rule findCenter_in[OF assms(2)])
  have noself: "\<forall>e\<in>set ?es. edge_from e \<noteq> edge_to e"
    unfolding edges by (auto dest: allEdges_edge)
  have res: "getLocalGraph v params = Inr ?lg"
    using assms(1,2,3)
    by (simp add: getLocalGraph_def Let_def withMd_def Set_has_def bfs_from_center)
  have sub: "?B \<subseteq> node_id ` set (graph_nodes g)"
  proof
    fix x assume "x \<in> ?B"
    then obtain k where "reach ?es ?c k x" by (auto simp: near_def)
    from reach_endpoint[OF this] cin show "x \<in> node_id ` set (graph_nodes g)"
      unfolding idset edges by (auto dest: allEdges_edge simp: idset[symmetric])
  qed
  have n1: "node_id ` set (graph_nodes ?lg) = ?B" using sub by auto
  have zero: "graph_nodes ?lg = [center] \<and> graph_edges ?lg = []" if "d = 0"
  proof -
    from that have B: "?B = {?c}" by (simp add: near_0)
    have "filter (\<lambda>n. node_id n \<in> ?B) (graph_nodes g) = [center]"
      unfolding B using filter_distinct_key[OF dist cin] by simp
    moreover have "filter (\<lambda>e. edge_from e \<in> ?B \<and> edge_to e \<in> ?B) ?es = []"
      unfolding B using noself by (auto simp: filter_empty_conv)
    ultimately show ?thesis by simp
  qed
  from res n1 zero show ?thesis by (intro exI[of _ ?lg]) simp
qed

lemma getLocalGraph_chainVault:
  "getLocalGraph chainVault \<lparr>params_path = ''A'', params_depth = None\<rparr> =
     Inr \<lparr>graph_nodes = take 2 (graph_nodes chainGraph),
          graph_edges = take 1 (graph_edges chainGraph)\<rparr>"
  by code_simp

theorem getLocalGraph_induced_witness:
  "getGraph chainVault = Inr chainGraph \<and>
   findCenter (graph_nodes chainGraph) (withMd ''A'') = Some (hd (graph_nodes chainGraph)) \<and>
   (0::int) \<le> 1 \<and>
   getLocalGraph chainVault \<lparr>params_path = ''A'', params_depth = None\<rparr> =
     Inr \<lparr>graph_nodes = take 2 (graph_nodes chainGraph),
          graph_edges = take 1 (graph_edges chainGraph)\<rparr> \<and>
   near (graph_edges chainGraph) ''A.md'' 1 = {''A.md'', ''B.md''} \<and>
   getLocalGraph chainVault \<lparr>params_path = ''A'', params_depth = Some 0\<rparr> =
     Inr \<lparr>graph_nodes = take 1 (graph_nodes chainGraph), graph_edges = []\<rparr>"
proof -
  let ?p = "\<lparr>params_path = ''A'', params_depth = None\<rparr>"
  let ?z = "\<lparr>params_path = ''A'', params_depth = Some 0\<rparr>"
  have c: "findCenter (graph_nodes chainGraph) (withMd (params_path ?p)) =
           Some (hd (graph_nodes chainGraph))"
    by code_simp
  have c0: "findCenter (graph_nodes chainGraph) (withMd (params_path ?z)) =
           Some (hd (graph_nodes chainGraph))"
    by code_simp
  note e = getLocalGraph_chainVault
  have i: "node_id (hd (graph_nodes chainGraph)) = ''A.md''" by (simp add: chainGraph_def)
  from getLocalGraph_induced[OF getGraph_chainVault c, of 1] obtain lg where
    lg: "getLocalGraph chainVault ?p = Inr lg"
        "node_id ` set (graph_nodes lg) =
           near (graph_edges chainGraph) (node_id (hd (graph_nodes chainGraph))) (nat 1)"
    by auto
  from lg(1) e have t: "graph_nodes lg = take 2 (graph_nodes chainGraph)" by auto
  have s: "node_id ` set (take 2 (graph_nodes chainGraph)) = {''A.md'', ''B.md''}"
    by (simp add: chainGraph_def)
  from lg(2) have "near (graph_edges chainGraph) ''A.md'' 1 = node_id ` set (graph_nodes lg)"
    by (simp add: i)
  with t s have n: "near (graph_edges chainGraph) ''A.md'' 1 = {''A.md'', ''B.md''}"
    by simp
  from getLocalGraph_induced[OF getGraph_chainVault c0, of 0] obtain lg0 where
    "getLocalGraph chainVault ?z = Inr lg0"
    "graph_nodes lg0 = [hd (graph_nodes chainGraph)] \<and> graph_edges lg0 = []"
    by auto
  then have z: "getLocalGraph chainVault ?z =
     Inr \<lparr>graph_nodes = take 1 (graph_nodes chainGraph), graph_edges = []\<rparr>"
    by (simp add: chainGraph_def)
  from getGraph_chainVault c e n z show ?thesis by simp
qed

end
